theory Spec2Isabelle
  imports Complex_Main
begin

section \<open>Constants, errors and the random source\<close>

text \<open>
  The engine is \<^verbatim>\<open>src/engine.js\<close>. JavaScript numbers that hold logits, probabilities
  and random draws are modelled as reals (finite doubles without rounding); positions,
  indices and actions are integers. The two things a real cannot hold are made explicit:
  an exception of the source is \<open>Inl TypeError\<close>, and a run that would put NaN into
  an array or return NaN is \<open>Inl NaN\<close>. A logits array that already holds
  \<^verbatim>\<open>Infinity\<close>, \<^verbatim>\<open>-Infinity\<close> or NaN is the subject of section
  \<open>clipLogits on any doubles\<close>.
\<close>

datatype error = TypeError | NaN

definition UP :: int where "UP = 0"
definition DOWN :: int where "DOWN = 1"
definition LEFT :: int where "LEFT = 2"
definition RIGHT :: int where "RIGHT = 3"

definition ACTION_DELTAS :: "(int \<times> int) list" where
  "ACTION_DELTAS = [(- 1, 0), (1, 0), (0, - 1), (0, 1)]"

definition MAX_LOGIT :: real where
  "MAX_LOGIT = 20"

type_synonym pos = "int \<times> int"

text \<open>
  \<^verbatim>\<open>Math.random()\<close> reads the ambient generator. The model threads it: a source of
  draws and the number of draws taken so far.
\<close>

type_synonym rng = "(nat \<Rightarrow> real) \<times> nat"

definition mathRandom :: "rng \<Rightarrow> real \<times> rng" where
  "mathRandom g = (fst g (snd g), (fst g, Suc (snd g)))"

text \<open>
  A running sum compared with one draw, as in \<^verbatim>\<open>sampleAction\<close> and
  \<^verbatim>\<open>_chooseWeighted\<close>: the first index whose cumulative sum exceeds the draw,
  \<open>None\<close> when the loop falls through.
\<close>

fun pick :: "real list \<Rightarrow> real \<Rightarrow> real \<Rightarrow> nat \<Rightarrow> nat option" where
  "pick [] r cumulative a = None"
| "pick (q # qs) r cumulative a =
     (if r < cumulative + q then Some a else pick qs r (cumulative + q) (Suc a))"

definition chooseWeighted :: "real list \<Rightarrow> rng \<Rightarrow> int \<times> rng" where
  "chooseWeighted probs g =
     (let (r, g') = mathRandom g
      in case pick probs r 0 0 of
           Some i \<Rightarrow> (int i, g')
         | None \<Rightarrow> (int (length probs) - 1, g'))"

section \<open>GridWorld\<close>

text \<open>
  A grid is an array of rows; a cell is \<open>Some 0\<close> (path), \<open>Some 1\<close> (wall), or
  \<open>None\<close> for a hole of a JavaScript array, which reads as \<^verbatim>\<open>undefined\<close>.
  \<open>cellAt\<close> is \<^verbatim>\<open>grid[r][c]\<close> for a row that exists; every caller checks the row
  first. A column outside the row reads \<^verbatim>\<open>undefined\<close>.
\<close>

type_synonym grid = "int option list list"

definition cellAt :: "grid \<Rightarrow> int \<Rightarrow> int \<Rightarrow> int option" where
  "cellAt g r c =
     (if 0 \<le> r \<and> r < int (length g) \<and> 0 \<le> c \<and> c < int (length (g ! nat r))
      then g ! nat r ! nat c else None)"

record gridWorld =
  grid :: grid
  envHeight :: nat
  envWidth :: nat
  start :: pos
  goal :: pos

definition GridWorld :: "grid \<Rightarrow> pos \<Rightarrow> pos \<Rightarrow> error + gridWorld" where
  "GridWorld g s gl =
     (case g of
        [] \<Rightarrow> Inl TypeError
      | row0 # _ \<Rightarrow> Inr \<lparr>grid = g, envHeight = length g, envWidth = length row0,
                          start = s, goal = gl\<rparr>)"

definition inBounds :: "gridWorld \<Rightarrow> int \<Rightarrow> int \<Rightarrow> bool" where
  "inBounds env row col =
     (row \<ge> 0 \<and> row < int (envHeight env) \<and> col \<ge> 0 \<and> col < int (envWidth env))"

definition isPath :: "gridWorld \<Rightarrow> int \<Rightarrow> int \<Rightarrow> error + bool" where
  "isPath env row col =
     (if inBounds env row col
      then (if row < int (length (grid env)) then Inr (cellAt (grid env) row col = Some 0)
            else Inl TypeError)
      else Inr False)"

definition step :: "gridWorld \<Rightarrow> pos \<Rightarrow> int \<Rightarrow> error + (pos \<times> bool)" where
  "step env p action =
     (if 0 \<le> action \<and> action < int (length ACTION_DELTAS)
      then (let (row, col) = p;
                (dr, dc) = ACTION_DELTAS ! nat action;
                nr = row + dr;
                nc = col + dc
            in case isPath env nr nc of
                 Inl e \<Rightarrow> Inl e
               | Inr ok \<Rightarrow>
                   (let newPos = (if ok then (nr, nc) else (row, col))
                    in Inr (newPos, newPos = goal env)))
      else Inl TypeError)"

section \<open>TabularSoftmaxPolicy\<close>

text \<open>
  The fields of the class. The record is generic in what the \<^verbatim>\<open>Float64Array\<close> of logits
  holds: a \<open>policy\<close> holds finite values, as reals; section \<open>clipLogits on any doubles\<close>
  instantiates it with doubles that may also be infinite or NaN.
\<close>

record 'n softmaxPolicy =
  height :: nat
  width :: nat
  nActions :: nat
  logits :: "'n list"

type_synonym policy = "real softmaxPolicy"

definition TabularSoftmaxPolicy :: "nat \<Rightarrow> nat \<Rightarrow> nat \<Rightarrow> policy" where
  "TabularSoftmaxPolicy h w n =
     \<lparr>height = h, width = w, nActions = n, logits = replicate (h * w * n) 0\<rparr>"

text \<open>
  \<open>logits\<close> is a \<^verbatim>\<open>Float64Array\<close>: a read outside it gives \<^verbatim>\<open>undefined\<close>
  (\<open>None\<close>), a write outside it is ignored, which is what \<open>xs[i := v]\<close> does for
  \<open>i \<ge> length xs\<close>; a negative index is outside.
\<close>

definition rd :: "real list \<Rightarrow> nat \<Rightarrow> real option" where
  "rd xs i = (if i < length xs then Some (xs ! i) else None)"

definition rdi :: "real list \<Rightarrow> int \<Rightarrow> real option" where
  "rdi xs i = (if 0 \<le> i then rd xs (nat i) else None)"

text \<open>\<open>v > m\<close> for a running maximum \<open>m\<close> that starts at \<^verbatim>\<open>-Infinity\<close> (\<open>None\<close>).\<close>

definition gtMax :: "real \<Rightarrow> real option \<Rightarrow> bool" where
  "gtMax v m = (case m of None \<Rightarrow> True | Some y \<Rightarrow> v > y)"

text \<open>
  \<^verbatim>\<open>getProbs\<close>. If one of the logits read is \<^verbatim>\<open>undefined\<close>, its exponential is NaN,
  so is the sum, and every entry of the result is NaN: the result is \<open>None\<close>.
  Otherwise the running maximum is \<^verbatim>\<open>-Infinity\<close> only when nothing was read.
\<close>

definition getProbs :: "policy \<Rightarrow> int \<Rightarrow> int \<Rightarrow> real list option" where
  "getProbs p row col =
     (let base = (row * int (width p) + col) * int (nActions p);
          vs = map (\<lambda>a. rdi (logits p) (base + int a)) [0..<nActions p]
      in if None \<in> set vs then None
         else (let zs = map the vs;
                   maxZ = fold (\<lambda>v m. if gtMax v m then Some v else m) zs None
               in case maxZ of
                    None \<Rightarrow> Some []
                  | Some m \<Rightarrow>
                      (let es = map (\<lambda>z. exp (z - m)) zs;
                           s = sum_list es
                       in Some (map (\<lambda>e. e / s) es))))"

definition sampleAction :: "policy \<Rightarrow> int \<Rightarrow> int \<Rightarrow> rng \<Rightarrow> int \<times> rng" where
  "sampleAction p row col g =
     (let probs = getProbs p row col;
          (r, g') = mathRandom g
      in case probs of
           None \<Rightarrow> (int (nActions p) - 1, g')
         | Some ps \<Rightarrow>
             (case pick ps r 0 0 of
                Some a \<Rightarrow> (int a, g')
              | None \<Rightarrow> (int (nActions p) - 1, g')))"

definition scoreFunction :: "policy \<Rightarrow> int \<Rightarrow> int \<Rightarrow> int \<Rightarrow> real list option" where
  "scoreFunction p row col action =
     (case getProbs p row col of
        None \<Rightarrow> None
      | Some ps \<Rightarrow>
          (let grad = map (\<lambda>q. - q) ps
           in Some (if 0 \<le> action \<and> action < int (length grad)
                    then grad[nat action := grad ! nat action + 1]
                    else grad)))"

definition maxAt :: "real list \<Rightarrow> nat \<Rightarrow> nat \<Rightarrow> real option" where
  "maxAt xs base n =
     fold (\<lambda>a m. case rd xs (base + a) of
                    None \<Rightarrow> m
                  | Some v \<Rightarrow> if gtMax v m then Some v else m)
          [0..<n] None"

definition clamp :: "real \<Rightarrow> real" where
  "clamp v = (let v1 = (if v < - MAX_LOGIT then - MAX_LOGIT else v)
              in if v1 > MAX_LOGIT then MAX_LOGIT else v1)"

text \<open>
  The body of \<^verbatim>\<open>clipLogits\<close> for one state. A slot outside the array reads
  \<^verbatim>\<open>undefined\<close>, the value computed from it is NaN and its write is ignored. A slot
  inside the array has taken part in the maximum; were the maximum \<^verbatim>\<open>-Infinity\<close>,
  the difference would be \<^verbatim>\<open>Infinity\<close> and the clamp would store \<open>MAX_LOGIT\<close>.
\<close>

definition clipState :: "real list \<Rightarrow> nat \<Rightarrow> nat \<Rightarrow> real list" where
  "clipState xs base n =
     (let maxVal = maxAt xs base n
      in fold (\<lambda>a ys. case rd ys (base + a) of
                         None \<Rightarrow> ys
                       | Some z \<Rightarrow> ys[base + a :=
                                      (case maxVal of None \<Rightarrow> MAX_LOGIT
                                                    | Some m \<Rightarrow> clamp (z - m))])
              [0..<n] xs)"

definition clipLogits :: "policy \<Rightarrow> policy" where
  "clipLogits p =
     p\<lparr>logits :=
         fold (\<lambda>r. fold (\<lambda>c xs. clipState xs ((r * width p + c) * nActions p) (nActions p))
                         [0..<width p])
              [0..<height p] (logits p)\<rparr>"

section \<open>Rollout\<close>

record trajectory =
  stateActions :: "(int \<times> int \<times> int) list"
  reachedGoal :: bool
  path :: "pos list"

text \<open>The loop \<^verbatim>\<open>for (t = 0; t < maxSteps; t++)\<close>, by the number of rounds left.\<close>

fun rolloutLoop ::
  "policy \<Rightarrow> gridWorld \<Rightarrow> nat \<Rightarrow> pos \<Rightarrow> (int \<times> int \<times> int) list \<Rightarrow> pos list \<Rightarrow> rng
     \<Rightarrow> error + (trajectory \<times> rng)" where
  "rolloutLoop p env 0 ps sa pth g =
     Inr (\<lparr>stateActions = sa, reachedGoal = (ps = goal env), path = pth\<rparr>, g)"
| "rolloutLoop p env (Suc k) ps sa pth g =
     (if ps = goal env
      then Inr (\<lparr>stateActions = sa, reachedGoal = True, path = pth\<rparr>, g)
      else (let (action, g') = sampleAction p (fst ps) (snd ps) g
            in case step env ps action of
                 Inl e \<Rightarrow> Inl e
               | Inr (newPos, dn) \<Rightarrow>
                   rolloutLoop p env k newPos (sa @ [(fst ps, snd ps, action)])
                     (pth @ [newPos]) g'))"

definition rollout ::
  "policy \<Rightarrow> gridWorld \<Rightarrow> pos option \<Rightarrow> int \<Rightarrow> rng \<Rightarrow> error + (trajectory \<times> rng)" where
  "rollout p env st maxSteps g =
     (let ps = (case st of Some s \<Rightarrow> s | None \<Rightarrow> start env)
      in rolloutLoop p env (nat maxSteps) ps [] [ps] g)"

section \<open>Training updates\<close>

text \<open>\<^verbatim>\<open>starts[idx]\<close>: \<^verbatim>\<open>undefined\<close> outside the array, and rollout then starts from
  \<^verbatim>\<open>env.start\<close>.\<close>

definition startAt :: "pos list \<Rightarrow> int \<Rightarrow> pos option" where
  "startAt starts i = (if 0 \<le> i \<and> i < int (length starts) then Some (starts ! nat i) else None)"

fun sampleBatch ::
  "policy \<Rightarrow> gridWorld \<Rightarrow> pos list \<Rightarrow> real list \<Rightarrow> nat \<Rightarrow> int \<Rightarrow> rng
     \<Rightarrow> error + (trajectory list \<times> rng)" where
  "sampleBatch p env starts startProbs 0 maxSteps g = Inr ([], g)"
| "sampleBatch p env starts startProbs (Suc k) maxSteps g =
     (let (i, g1) = chooseWeighted startProbs g
      in case rollout p env (startAt starts i) maxSteps g1 of
           Inl e \<Rightarrow> Inl e
         | Inr (traj, g2) \<Rightarrow>
             (case sampleBatch p env starts startProbs k maxSteps g2 of
                Inl e \<Rightarrow> Inl e
              | Inr (ts, g3) \<Rightarrow> Inr (traj # ts, g3)))"

definition rewardsOf :: "trajectory list \<Rightarrow> real list" where
  "rewardsOf ts = map (\<lambda>t. if reachedGoal t then 1 else 0) ts"

fun foldE :: "('a \<Rightarrow> 's \<Rightarrow> error + 's) \<Rightarrow> 'a list \<Rightarrow> 's \<Rightarrow> error + 's" where
  "foldE f [] s = Inr s"
| "foldE f (x # xs) s = (case f x s of Inl e \<Rightarrow> Inl e | Inr s' \<Rightarrow> foldE f xs s')"

text \<open>
  The innermost loop of both updates, \<^verbatim>\<open>grad[base + a] += coef * score[a]\<close> for one
  visited (state, action). \<open>grad\<close> is a \<^verbatim>\<open>Float64Array\<close>: outside it nothing is
  written; inside it a NaN score would be stored.
\<close>

definition addScore ::
  "policy \<Rightarrow> real \<Rightarrow> int \<times> int \<times> int \<Rightarrow> real list \<Rightarrow> error + real list" where
  "addScore p coef sa grad =
     (let (row, col, action) = sa;
          score = scoreFunction p row col action;
          base = (row * int (width p) + col) * int (nActions p)
      in foldE (\<lambda>a gr.
                  (let i = base + int a
                   in if 0 \<le> i \<and> i < int (length gr)
                      then (case score of
                              None \<Rightarrow> Inl NaN
                            | Some sc \<Rightarrow> Inr (gr[nat i := gr ! nat i + coef * sc ! a]))
                      else Inr gr))
               [0..<nActions p] grad)"

text \<open>The two outer loops: trajectory \<open>i\<close> with its coefficient, then its steps \<open>j\<close>.\<close>

definition accumulate ::
  "policy \<Rightarrow> (trajectory \<times> real) list \<Rightarrow> real list \<Rightarrow> error + real list" where
  "accumulate p tcs grad =
     foldE (\<lambda>(t, coef) gr. foldE (addScore p coef) (stateActions t) gr) tcs grad"

definition applyGrad :: "policy \<Rightarrow> real \<Rightarrow> real list \<Rightarrow> policy" where
  "applyGrad p lr grad =
     p\<lparr>logits := map (\<lambda>i. logits p ! i + lr * grad ! i) [0..<length (logits p)]\<rparr>"

definition reinforceUpdate ::
  "policy \<Rightarrow> gridWorld \<Rightarrow> pos list \<Rightarrow> real list \<Rightarrow> nat \<Rightarrow> real \<Rightarrow> int \<Rightarrow> rng
     \<Rightarrow> error + (real \<times> policy \<times> rng)" where
  "reinforceUpdate p env starts startProbs N lr maxSteps g =
     (case sampleBatch p env starts startProbs N maxSteps g of
        Inl e \<Rightarrow> Inl e
      | Inr (trajectories, g') \<Rightarrow>
          (let rewards = rewardsOf trajectories;
               K = sum_list rewards;
               rHat = K / real N;
               grad0 = replicate (length (logits p)) 0
           in case accumulate p
                     (zip trajectories (map (\<lambda>r. (1 / real N) * (r - rHat)) rewards)) grad0 of
                Inl e \<Rightarrow> Inl e
              | Inr grad \<Rightarrow> Inr (K, clipLogits (applyGrad p lr grad), g')))"

definition maxrlUpdate ::
  "policy \<Rightarrow> gridWorld \<Rightarrow> pos list \<Rightarrow> real list \<Rightarrow> nat \<Rightarrow> real \<Rightarrow> int \<Rightarrow> rng
     \<Rightarrow> error + (real \<times> policy \<times> rng)" where
  "maxrlUpdate p env starts startProbs N lr maxSteps g =
     (case sampleBatch p env starts startProbs N maxSteps g of
        Inl e \<Rightarrow> Inl e
      | Inr (trajectories, g') \<Rightarrow>
          (let rewards = rewardsOf trajectories;
               K = sum_list rewards
           in if K > 0
              then (let grad0 = replicate (length (logits p)) 0
                    in case accumulate p
                              (zip trajectories (map (\<lambda>r. r / K - 1 / real N) rewards)) grad0 of
                         Inl e \<Rightarrow> Inl e
                       | Inr grad \<Rightarrow> Inr (K, clipLogits (applyGrad p lr grad), g'))
              else Inr (K, p, g')))"

section \<open>Evaluation\<close>

fun countSuccesses ::
  "policy \<Rightarrow> gridWorld \<Rightarrow> pos option \<Rightarrow> nat \<Rightarrow> int \<Rightarrow> nat \<Rightarrow> rng \<Rightarrow> error + (nat \<times> rng)" where
  "countSuccesses p env st 0 maxSteps successes g = Inr (successes, g)"
| "countSuccesses p env st (Suc k) maxSteps successes g =
     (case rollout p env st maxSteps g of
        Inl e \<Rightarrow> Inl e
      | Inr (traj, g') \<Rightarrow>
          countSuccesses p env st k maxSteps
            (if reachedGoal traj then Suc successes else successes) g')"

text \<open>\<^verbatim>\<open>successes / nEval\<close> is \<^verbatim>\<open>0 / 0\<close>, that is NaN, when \<open>nEval\<close> is 0.\<close>

definition evaluateFromStart ::
  "policy \<Rightarrow> gridWorld \<Rightarrow> pos option \<Rightarrow> nat \<Rightarrow> int \<Rightarrow> rng \<Rightarrow> error + (real \<times> rng)" where
  "evaluateFromStart p env st nEval maxSteps g =
     (case countSuccesses p env st nEval maxSteps 0 g of
        Inl e \<Rightarrow> Inl e
      | Inr (successes, g') \<Rightarrow>
          if nEval = 0 then Inl NaN else Inr (real successes / real nEval, g'))"

section \<open>Shortest-path search\<close>

text \<open>
  \<^verbatim>\<open>bfsShortestPath\<close> returns \<^verbatim>\<open>{distance, path}\<close> or \<^verbatim>\<open>null\<close>: the result is
  \<open>Some (distance, path)\<close> or \<open>None\<close>.

  The search keeps three arrays. \<^verbatim>\<open>visited\<close> (rows of \<^verbatim>\<open>Uint8Array\<close>) is modelled by
  the set of cells marked 1. \<^verbatim>\<open>parent\<close> is modelled by a function on cells whose value is
  \<open>(-1, -1)\<close> until the cell gets a parent. Both have \<^verbatim>\<open>height\<close> rows of \<^verbatim>\<open>width\<close>
  entries, and the loop reads and writes them only at cells it has checked to be in
  bounds; the two places that use the unchecked start are written out: the write
  \<^verbatim>\<open>visited[start[0]][start[1]] = 1\<close> in \<open>bfsShortestPath\<close> and the read
  \<^verbatim>\<open>parent[cr][cc]\<close> in \<open>pathBack\<close>. \<^verbatim>\<open>queue\<close> is the list of \<open>(row, col, dist)\<close>
  entries, read at \<^verbatim>\<open>head\<close>.
\<close>

type_synonym bfsResult = "(nat \<times> pos list) option"

type_synonym bfsState = "pos set \<times> (pos \<Rightarrow> pos) \<times> (int \<times> int \<times> nat) list"

text \<open>
  The loop that walks the parent pointers back from the goal, \<^verbatim>\<open>while (cr !== -1)\<close>.
  \<^verbatim>\<open>parent[cr]\<close> is \<^verbatim>\<open>undefined\<close> for a row outside the array and \<^verbatim>\<open>parent[cr][cc]\<close>
  for a column outside the row; destructuring either throws. Nothing bounds the loop, so
  it is a partial function: \<open>None\<close> is not returning.
\<close>

partial_function (option) pathBack ::
  "nat \<Rightarrow> nat \<Rightarrow> (pos \<Rightarrow> pos) \<Rightarrow> int \<Rightarrow> int \<Rightarrow> pos list \<Rightarrow> (error + pos list) option" where
  "pathBack h w parent cr cc pth =
     (if cr \<noteq> - 1
      then (if 0 \<le> cr \<and> cr < int h \<and> 0 \<le> cc \<and> cc < int w
            then (let (pr, pc) = parent (cr, cc)
                  in pathBack h w parent pr pc (pth @ [(cr, cc)]))
            else Some (Inl TypeError))
      else Some (Inr pth))"

declare pathBack.simps [code]

text \<open>One round of \<^verbatim>\<open>for (let a = 0; a < 4; a++)\<close>, for the direction \<open>d\<close>.\<close>

definition expandDir ::
  "grid \<Rightarrow> nat \<Rightarrow> nat \<Rightarrow> int \<Rightarrow> int \<Rightarrow> nat \<Rightarrow> int \<times> int \<Rightarrow> bfsState \<Rightarrow> bfsState" where
  "expandDir g h w r c dst d st =
     (let (visited, parent, queue) = st;
          (dr, dc) = d;
          nr = r + dr;
          nc = c + dc
      in if nr \<ge> 0 \<and> nr < int h \<and> nc \<ge> 0 \<and> nc < int w \<and>
            cellAt g nr nc = Some 0 \<and> (nr, nc) \<notin> visited
         then (insert (nr, nc) visited, parent((nr, nc) := (r, c)), queue @ [(nr, nc, dst + 1)])
         else st)"

text \<open>
  The \<^verbatim>\<open>while\<close> loop terminates: every entry pushed marks a cell of the grid unvisited
  until then, and every round takes one entry.
\<close>

definition gridCells :: "nat \<Rightarrow> nat \<Rightarrow> pos set" where
  "gridCells h w = {0..<int h} \<times> {0..<int w}"

lemma gridCells_finite: "finite (gridCells h w)"
  by (simp add: gridCells_def)

lemma expandDir_measure:
  assumes "expandDir g h w r c dst d (vis, par, q) = (vis', par', q')"
  shows "length q' + card (gridCells h w - vis') = length q + card (gridCells h w - vis)"
proof (cases "expandDir g h w r c dst d (vis, par, q) = (vis, par, q)")
  case True
  then show ?thesis using assms by simp
next
  case False
  obtain dr dc where d: "d = (dr, dc)" by (cases d) auto
  let ?x = "(r + dr, c + dc)"
  have cond: "?x \<in> gridCells h w" "?x \<notin> vis" and res: "vis' = insert ?x vis" "length q' = Suc (length q)"
    using False assms by (auto simp: expandDir_def d Let_def gridCells_def split: if_splits)
  have "gridCells h w - vis = insert ?x (gridCells h w - vis')" using cond res by auto
  moreover have "?x \<notin> gridCells h w - vis'" using res by simp
  ultimately have "card (gridCells h w - vis) = Suc (card (gridCells h w - vis'))"
    using gridCells_finite [of h w] by (simp add: card_insert_if)
  then show ?thesis using res by simp
qed

lemma expandDir_length:
  "expandDir g h w r c dst d (vis, par, q) = (vis', par', q') \<Longrightarrow> length q \<le> length q'"
  by (auto simp: expandDir_def Let_def split: prod.splits if_splits)

lemma expand_length:
  "fold (expandDir g h w r c dst) ds (vis, par, q) = (vis', par', q') \<Longrightarrow> length q \<le> length q'"
proof (induction ds arbitrary: vis par q)
  case Nil
  then show ?case by simp
next
  case (Cons d ds)
  obtain v1 p1 q1 where s1: "expandDir g h w r c dst d (vis, par, q) = (v1, p1, q1)"
    by (cases "expandDir g h w r c dst d (vis, par, q)") auto
  then have "fold (expandDir g h w r c dst) ds (v1, p1, q1) = (vis', par', q')"
    using Cons.prems by simp
  from Cons.IH [OF this] expandDir_length [OF s1] show ?case by simp
qed

lemma expand_measure:
  "fold (expandDir g h w r c dst) ds (vis, par, q) = (vis', par', q') \<Longrightarrow>
     length q' + card (gridCells h w - vis') = length q + card (gridCells h w - vis)"
proof (induction ds arbitrary: vis par q)
  case Nil
  then show ?case by simp
next
  case (Cons d ds)
  obtain v1 p1 q1 where s1: "expandDir g h w r c dst d (vis, par, q) = (v1, p1, q1)"
    by (cases "expandDir g h w r c dst d (vis, par, q)") auto
  then have "fold (expandDir g h w r c dst) ds (v1, p1, q1) = (vis', par', q')"
    using Cons.prems by simp
  from Cons.IH [OF this] expandDir_measure [OF s1] show ?case by simp
qed

function bfsLoop ::
  "grid \<Rightarrow> nat \<Rightarrow> nat \<Rightarrow> pos \<Rightarrow> nat \<Rightarrow> pos set \<Rightarrow> (pos \<Rightarrow> pos) \<Rightarrow> (int \<times> int \<times> nat) list
     \<Rightarrow> (error + bfsResult) option" where
  "bfsLoop g h w gl head visited parent queue =
     (if head < length queue
      then (let (r, c, dst) = queue ! head
            in if r = fst gl \<and> c = snd gl
               then (case pathBack h w parent r c [] of
                       None \<Rightarrow> None
                     | Some (Inl e) \<Rightarrow> Some (Inl e)
                     | Some (Inr pth) \<Rightarrow> Some (Inr (Some (dst, rev pth))))
               else (let (visited', parent', queue') =
                           fold (expandDir g h w r c dst) ACTION_DELTAS (visited, parent, queue)
                     in bfsLoop g h w gl (Suc head) visited' parent' queue'))
      else Some (Inr None))"
  by pat_completeness auto
termination
proof (relation "measure (\<lambda>(g, h, w, gl, head, visited, parent, queue).
          2 * card (gridCells h w - visited) + (length queue - head))", goal_cases)
  case 1
  then show ?case by simp
next
  case (2 g h w gl head visited parent queue x r y c dst x' visited' y' parent' queue')
  then have "fold (expandDir g h w r c dst) ACTION_DELTAS (visited, parent, queue) = (visited', parent', queue')"
    by simp
  from expand_measure [OF this] expand_length [OF this] 2(1) show ?case by simp
qed

declare bfsLoop.simps [simp del]

text \<open>
  \<^verbatim>\<open>grid[0].length\<close> throws on an empty grid. \<^verbatim>\<open>visited[start[0]][start[1]] = 1\<close> throws
  when the row \<^verbatim>\<open>start[0]\<close> does not exist, and is ignored by the typed array when only
  the column is out of range.
\<close>

definition bfsShortestPath :: "grid \<Rightarrow> pos \<Rightarrow> pos \<Rightarrow> (error + bfsResult) option" where
  "bfsShortestPath g s gl =
     (case g of
        [] \<Rightarrow> Some (Inl TypeError)
      | row0 # _ \<Rightarrow>
          (let h = length g;
               w = length row0
           in if 0 \<le> fst s \<and> fst s < int h
              then bfsLoop g h w gl 0 (if 0 \<le> snd s \<and> snd s < int w then {s} else {})
                     (\<lambda>_. (- 1, - 1)) [(fst s, snd s, 0)]
              else Some (Inl TypeError)))"

section \<open>Maze generator\<close>

text \<open>
  \<^verbatim>\<open>Array.from\<close> fills the rows in order and the cells of a row in order; only interior
  cells draw a random number.
\<close>

definition wallProb :: real where
  "wallProb = 0.30"

fun genCells :: "nat \<Rightarrow> nat \<Rightarrow> nat \<Rightarrow> nat list \<Rightarrow> rng \<Rightarrow> int option list \<times> rng" where
  "genCells rows cols r [] rg = ([], rg)"
| "genCells rows cols r (c # cs) rg =
     (if r = 0 \<or> int r = int rows - 1 \<or> c = 0 \<or> int c = int cols - 1
      then (let (rest, rg') = genCells rows cols r cs rg
            in (Some 1 # rest, rg'))
      else (let (x, rg1) = mathRandom rg;
                (rest, rg2) = genCells rows cols r cs rg1
            in (Some (if x < wallProb then 1 else 0) # rest, rg2)))"

fun genRows :: "nat \<Rightarrow> nat \<Rightarrow> nat list \<Rightarrow> rng \<Rightarrow> grid \<times> rng" where
  "genRows rows cols [] rg = ([], rg)"
| "genRows rows cols (r # rs) rg =
     (let (row, rg1) = genCells rows cols r [0..<cols] rg;
          (rest, rg2) = genRows rows cols rs rg1
      in (row # rest, rg2))"

text \<open>
  \<^verbatim>\<open>grid[r][c] = v\<close> on an array of arrays: it throws when row \<open>r\<close> does not exist; a
  column past the end of the row extends the row, leaving holes; a negative column sets a
  property of the row and none of its elements.
\<close>

definition setCell :: "grid \<Rightarrow> int \<Rightarrow> int \<Rightarrow> int \<Rightarrow> error + grid" where
  "setCell g r c v =
     (if 0 \<le> r \<and> r < int (length g)
      then (let row = g ! nat r;
                row' = (if c < 0 then row
                        else if c < int (length row) then row[nat c := Some v]
                        else row @ replicate (nat c - length row) None @ [Some v])
            in Inr (g[nat r := row']))
      else Inl TypeError)"

text \<open>
  The loop \<^verbatim>\<open>for (attempt = 0; attempt < 200 && !connected; attempt++)\<close>, by the number
  of attempts left; it returns \<^verbatim>\<open>connected\<close>, the grid and the generator.
\<close>

fun pokeLoop ::
  "nat \<Rightarrow> nat \<Rightarrow> nat \<Rightarrow> pos \<Rightarrow> pos \<Rightarrow> grid \<Rightarrow> rng \<Rightarrow> (error + (bool \<times> grid \<times> rng)) option" where
  "pokeLoop 0 rows cols s gl g rg = Some (Inr (False, g, rg))"
| "pokeLoop (Suc k) rows cols s gl g rg =
     (let (x1, rg1) = mathRandom rg;
          r = 1 + \<lfloor>x1 * real_of_int (int rows - 2)\<rfloor>;
          (x2, rg2) = mathRandom rg1;
          c = 1 + \<lfloor>x2 * real_of_int (int cols - 2)\<rfloor>
      in case setCell g r c 0 of
           Inl e \<Rightarrow> Some (Inl e)
         | Inr g' \<Rightarrow>
             (case bfsShortestPath g' s gl of
                None \<Rightarrow> None
              | Some (Inl e) \<Rightarrow> Some (Inl e)
              | Some (Inr (Some found)) \<Rightarrow> Some (Inr (True, g', rg2))
              | Some (Inr None) \<Rightarrow> pokeLoop k rows cols s gl g' rg2))"

text \<open>
  \<^verbatim>\<open>generateMaze\<close> with start and goal resolved. It calls itself when 200 pokes did not
  connect the maze, without a bound: a partial function.
\<close>

partial_function (option) generateMazeFrom ::
  "nat \<Rightarrow> nat \<Rightarrow> pos \<Rightarrow> pos \<Rightarrow> rng \<Rightarrow> (error + (grid \<times> rng)) option" where
  "generateMazeFrom rows cols s gl rg =
     (let (g0, rg1) = genRows rows cols [0..<rows] rg
      in case setCell g0 (fst s) (snd s) 0 of
           Inl e \<Rightarrow> Some (Inl e)
         | Inr g1 \<Rightarrow>
             (case setCell g1 (fst gl) (snd gl) 0 of
                Inl e \<Rightarrow> Some (Inl e)
              | Inr g2 \<Rightarrow>
                  (case bfsShortestPath g2 s gl of
                     None \<Rightarrow> None
                   | Some (Inl e) \<Rightarrow> Some (Inl e)
                   | Some (Inr (Some found)) \<Rightarrow> Some (Inr (g2, rg1))
                   | Some (Inr None) \<Rightarrow>
                       (case pokeLoop 200 rows cols s gl g2 rg1 of
                          None \<Rightarrow> None
                        | Some (Inl e) \<Rightarrow> Some (Inl e)
                        | Some (Inr (conn, g3, rg2)) \<Rightarrow>
                            if conn then Some (Inr (g3, rg2))
                            else generateMazeFrom rows cols s gl rg2))))"

declare generateMazeFrom.simps [code]

text \<open>The defaults: \<^verbatim>\<open>start = [1, 1]\<close>, and \<^verbatim>\<open>[rows - 2, cols - 2]\<close> for a missing goal.\<close>

definition generateMaze ::
  "nat \<Rightarrow> nat \<Rightarrow> pos option \<Rightarrow> pos option \<Rightarrow> rng \<Rightarrow> (error + (grid \<times> rng)) option" where
  "generateMaze rows cols st gl rg =
     generateMazeFrom rows cols
       (case st of Some s \<Rightarrow> s | None \<Rightarrow> (1, 1))
       (case gl of Some x \<Rightarrow> x | None \<Rightarrow> (int rows - 2, int cols - 2))
       rg"

section \<open>clipLogits on any doubles\<close>

text \<open>
  A \<^verbatim>\<open>Float64Array\<close> holds doubles, and a double is a finite number, \<^verbatim>\<open>Infinity\<close>,
  \<^verbatim>\<open>-Infinity\<close> or NaN. \<open>float64\<close> has all four; on finite values the arithmetic is that
  of the reals (no rounding). In \<^verbatim>\<open>clipLogits\<close> the only arithmetic is \<^verbatim>\<open>logits[base + a] - maxVal\<close>,
  and a finite difference that the source rounds to \<^verbatim>\<open>-Infinity\<close> is clamped to
  \<open>- MAX_LOGIT\<close> like the exact difference.
\<close>

datatype float64 = Finite real | PosInfinity | NegInfinity | NotANumber

type_synonym policy64 = "float64 softmaxPolicy"

text \<open>\<^verbatim>\<open>a > b\<close> and \<^verbatim>\<open>a < b\<close>: false when an operand is NaN.\<close>

fun gt64 :: "float64 \<Rightarrow> float64 \<Rightarrow> bool" where
  "gt64 (Finite a) (Finite b) = (a > b)"
| "gt64 (Finite a) NegInfinity = True"
| "gt64 PosInfinity (Finite b) = True"
| "gt64 PosInfinity NegInfinity = True"
| "gt64 _ _ = False"

definition lt64 :: "float64 \<Rightarrow> float64 \<Rightarrow> bool" where
  "lt64 a b = gt64 b a"

text \<open>\<^verbatim>\<open>a - b\<close>: NaN when an operand is NaN and for \<^verbatim>\<open>Infinity - Infinity\<close> and
  \<^verbatim>\<open>-Infinity - -Infinity\<close>.\<close>

fun sub64 :: "float64 \<Rightarrow> float64 \<Rightarrow> float64" where
  "sub64 (Finite a) (Finite b) = Finite (a - b)"
| "sub64 (Finite a) PosInfinity = NegInfinity"
| "sub64 (Finite a) NegInfinity = PosInfinity"
| "sub64 PosInfinity (Finite b) = PosInfinity"
| "sub64 PosInfinity NegInfinity = PosInfinity"
| "sub64 NegInfinity (Finite b) = NegInfinity"
| "sub64 NegInfinity PosInfinity = NegInfinity"
| "sub64 _ _ = NotANumber"

text \<open>
  \<^verbatim>\<open>logits[i]\<close> as an operand of \<^verbatim>\<open>>\<close> or \<^verbatim>\<open>-\<close>: outside the array the read gives
  \<^verbatim>\<open>undefined\<close>, which both operators convert to NaN.
\<close>

definition rd64 :: "float64 list \<Rightarrow> nat \<Rightarrow> float64" where
  "rd64 xs i = (if i < length xs then xs ! i else NotANumber)"

definition maxAt64 :: "float64 list \<Rightarrow> nat \<Rightarrow> nat \<Rightarrow> float64" where
  "maxAt64 xs base n =
     fold (\<lambda>a maxVal. let v = rd64 xs (base + a) in if gt64 v maxVal then v else maxVal)
          [0..<n] NegInfinity"

definition clamp64 :: "float64 \<Rightarrow> float64" where
  "clamp64 v = (let v1 = (if lt64 v (Finite (- MAX_LOGIT)) then Finite (- MAX_LOGIT) else v)
                in if gt64 v1 (Finite MAX_LOGIT) then Finite MAX_LOGIT else v1)"

text \<open>The body of \<^verbatim>\<open>clipLogits\<close> for one state; a write outside the array is ignored.\<close>

definition clipState64 :: "float64 list \<Rightarrow> nat \<Rightarrow> nat \<Rightarrow> float64 list" where
  "clipState64 xs base n =
     (let maxVal = maxAt64 xs base n
      in fold (\<lambda>a ys. ys[base + a := clamp64 (sub64 (rd64 ys (base + a)) maxVal)])
              [0..<n] xs)"

definition clipLogits64 :: "policy64 \<Rightarrow> policy64" where
  "clipLogits64 p =
     p\<lparr>logits :=
         fold (\<lambda>r. fold (\<lambda>c xs. clipState64 xs ((r * width p + c) * nActions p) (nActions p))
                         [0..<width p])
              [0..<height p] (logits p)\<rparr>"


section \<open>Routes and the invariant of the search\<close>

text \<open>The 5 x 5 fixture: a ring corridor around a centre wall.\<close>

definition fixtureMaze :: grid where
  "fixtureMaze = map (map Some)
     [[1, 1, 1, 1, 1],
      [1, 0, 0, 0, 1],
      [1, 0, 1, 0, 1],
      [1, 0, 0, 0, 1],
      [1, 1, 1, 1, 1]]"

text \<open>
  Routes. A cell is open when it is an in-bounds path cell, as the search tests it: the
  bounds are the number of rows and the length of row 0. A route from \<open>s\<close> lists the cells
  after \<open>s\<close>: each is 4-adjacent to the one before and open. The cell \<open>s\<close> itself is not
  tested.
\<close>

definition isOpen :: "grid \<Rightarrow> pos \<Rightarrow> bool" where
  "isOpen g v =
     (0 \<le> fst v \<and> fst v < int (length g) \<and> 0 \<le> snd v \<and> snd v < int (length (g ! 0)) \<and>
      cellAt g (fst v) (snd v) = Some 0)"

definition adjacent :: "pos \<Rightarrow> pos \<Rightarrow> bool" where
  "adjacent u v = (v \<in> set (map (\<lambda>d. (fst u + fst d, snd u + snd d)) ACTION_DELTAS))"

fun routeFrom :: "grid \<Rightarrow> pos \<Rightarrow> pos list \<Rightarrow> bool" where
  "routeFrom g u [] = True"
| "routeFrom g u (v # vs) = (adjacent u v \<and> isOpen g v \<and> routeFrom g v vs)"

definition route :: "grid \<Rightarrow> pos \<Rightarrow> pos \<Rightarrow> pos list \<Rightarrow> bool" where
  "route g s gl vs = (routeFrom g s vs \<and> last (s # vs) = gl)"

text \<open>A route in the graph whose vertices are the path cells: the start is open too.\<close>

definition pathRoute :: "grid \<Rightarrow> pos \<Rightarrow> pos \<Rightarrow> pos list \<Rightarrow> bool" where
  "pathRoute g s gl vs = (isOpen g s \<and> route g s gl vs)"

text \<open>For the proofs: \<open>v\<close> is reached from \<open>s\<close> by a route of \<open>n\<close> steps.\<close>

definition reach :: "grid \<Rightarrow> pos \<Rightarrow> nat \<Rightarrow> pos \<Rightarrow> bool" where
  "reach g s n v = (\<exists>vs. length vs = n \<and> route g s v vs)"

text \<open>The cell and the distance of a queue entry.\<close>

definition cellOf :: "int \<times> int \<times> nat \<Rightarrow> pos" where
  "cellOf e = (fst e, fst (snd e))"

definition dstOf :: "int \<times> int \<times> nat \<Rightarrow> nat" where
  "dstOf e = snd (snd e)"

text \<open>The cells met by following the parent pointers \<open>n\<close> times from \<open>v\<close>.\<close>

fun trail :: "(pos \<Rightarrow> pos) \<Rightarrow> pos \<Rightarrow> nat \<Rightarrow> pos list" where
  "trail par v 0 = [v]"
| "trail par v (Suc n) = v # trail par (par v) n"

text \<open>
  The invariant of the search loop at \<^verbatim>\<open>head = k\<close>: the queue starts with the start
  cell and holds each visited cell once; distances along it do not decrease and exceed
  the distance at the head by at most 1; the parent pointers of every entry lead back to
  the start along a route of the entry's distance; no route to an entry is shorter than
  its distance; and every open neighbour of an entry before the head is visited.
\<close>

definition edge :: "grid \<Rightarrow> pos \<Rightarrow> pos \<Rightarrow> bool" where
  "edge g u v = (adjacent u v \<and> isOpen g v)"

definition invQ :: "grid \<Rightarrow> pos \<Rightarrow> pos set \<Rightarrow> (int \<times> int \<times> nat) list \<Rightarrow> bool" where
  "invQ g s vis q =
     (q \<noteq> [] \<and> q ! 0 = (fst s, snd s, 0) \<and> vis = cellOf ` set q \<and> distinct (map cellOf q) \<and>
      (\<forall>v \<in> vis. v = s \<or> isOpen g v))"

definition invSorted :: "nat \<Rightarrow> (int \<times> int \<times> nat) list \<Rightarrow> bool" where
  "invSorted k q =
     ((\<forall>i j. i \<le> j \<and> j < length q \<longrightarrow> dstOf (q ! i) \<le> dstOf (q ! j)) \<and>
      (k < length q \<longrightarrow> (\<forall>j < length q. dstOf (q ! j) \<le> dstOf (q ! k) + 1)))"

definition chain :: "grid \<Rightarrow> pos \<Rightarrow> (pos \<Rightarrow> pos) \<Rightarrow> pos set \<Rightarrow> int \<times> int \<times> nat \<Rightarrow> bool" where
  "chain g s par vis e =
     (set (trail par (cellOf e) (dstOf e)) \<subseteq> vis \<and>
      last (trail par (cellOf e) (dstOf e)) = s \<and>
      routeFrom g s (tl (rev (trail par (cellOf e) (dstOf e)))))"

definition invChain ::
  "grid \<Rightarrow> pos \<Rightarrow> (pos \<Rightarrow> pos) \<Rightarrow> pos set \<Rightarrow> (int \<times> int \<times> nat) list \<Rightarrow> bool" where
  "invChain g s par vis q = (par s = (- 1, - 1) \<and> (\<forall>e \<in> set q. chain g s par vis e))"

definition invMin :: "grid \<Rightarrow> pos \<Rightarrow> (int \<times> int \<times> nat) list \<Rightarrow> bool" where
  "invMin g s q = (\<forall>e \<in> set q. \<forall>n. reach g s n (cellOf e) \<longrightarrow> dstOf e \<le> n)"

definition invClosed :: "grid \<Rightarrow> nat \<Rightarrow> pos set \<Rightarrow> (int \<times> int \<times> nat) list \<Rightarrow> bool" where
  "invClosed g k vis q = (\<forall>i < k. \<forall>x. edge g (cellOf (q ! i)) x \<longrightarrow> x \<in> vis)"

definition bfsInv ::
  "grid \<Rightarrow> pos \<Rightarrow> nat \<Rightarrow> pos set \<Rightarrow> (pos \<Rightarrow> pos) \<Rightarrow> (int \<times> int \<times> nat) list \<Rightarrow> bool" where
  "bfsInv g s k vis par q =
     (k \<le> length q \<and> invQ g s vis q \<and> invSorted k q \<and> invChain g s par vis q \<and>
      invMin g s q \<and> invClosed g k vis q)"

text \<open>
  What the search owes: if a route to the goal exists, a found result whose path is a
  route of minimal length and whose distance is that length; otherwise the no-path result.
\<close>

definition bfsPost :: "grid \<Rightarrow> pos \<Rightarrow> pos \<Rightarrow> (error + bfsResult) option \<Rightarrow> bool" where
  "bfsPost g s gl res =
     (((\<exists>vs. route g s gl vs) \<longrightarrow>
         (\<exists>ws. res = Some (Inr (Some (length ws, s # ws))) \<and> route g s gl ws \<and>
               (\<forall>vs. route g s gl vs \<longrightarrow> length ws \<le> length vs))) \<and>
      ((\<nexists>vs. route g s gl vs) \<longrightarrow> res = Some (Inr None)))"

text \<open>The 4 x 4 maze whose interior is open.\<close>

definition openMaze :: grid where
  "openMaze = map (map Some) [[1, 1, 1, 1], [1, 0, 0, 1], [1, 0, 0, 1], [1, 1, 1, 1]]"


section \<open>Auxiliary notions for the proofs\<close>

text \<open>The slots of one state that lie inside the array.\<close>

definition seg :: "real list \<Rightarrow> nat \<Rightarrow> nat \<Rightarrow> nat set" where
  "seg xs base n = {j. base \<le> j \<and> j < base + n \<and> j < length xs}"

text \<open>The writing loop of \<open>clipState\<close> with any function of the value read, run for
  \<open>k\<close> rounds.\<close>

definition writeLoop :: "(real \<Rightarrow> real) \<Rightarrow> nat \<Rightarrow> nat \<Rightarrow> real list \<Rightarrow> real list" where
  "writeLoop F base k xs =
     fold (\<lambda>a ys. case rd ys (base + a) of None \<Rightarrow> ys | Some z \<Rightarrow> ys[base + a := F z]) [0..<k] xs"

text \<open>What \<^verbatim>\<open>clipLogits\<close> stores for a value \<open>z\<close> of the state at \<open>base\<close>.\<close>

definition clipVal :: "real list \<Rightarrow> nat \<Rightarrow> nat \<Rightarrow> real \<Rightarrow> real" where
  "clipVal xs base n z = clamp (z - Max ((!) xs ` seg xs base n))"

text \<open>A policy of one state whose logits are not clipped.\<close>

definition demoPolicy :: policy where
  "demoPolicy = \<lparr>height = 1, width = 1, nActions = 4, logits = [1, 2, 3, - 30]\<rparr>"

text \<open>A double that is a finite number, and the policy over doubles that holds the finite
  logits of a policy.\<close>

fun isFinite :: "float64 \<Rightarrow> bool" where
  "isFinite (Finite x) = True"
| "isFinite _ = False"

definition finitePolicy :: "policy \<Rightarrow> policy64" where
  "finitePolicy p =
     \<lparr>height = height p, width = width p, nActions = nActions p, logits = map Finite (logits p)\<rparr>"

text \<open>The same unclipped policy over doubles; a state of two actions that holds
  \<^verbatim>\<open>Infinity\<close>; a state of four actions that holds \<^verbatim>\<open>Infinity\<close> and \<^verbatim>\<open>-Infinity\<close>.\<close>

definition demoPolicy64 :: policy64 where
  "demoPolicy64 = \<lparr>height = 1, width = 1, nActions = 4,
                    logits = [Finite 1, Finite 2, Finite 3, Finite (- 30)]\<rparr>"

definition infinityPolicy :: policy64 where
  "infinityPolicy = \<lparr>height = 1, width = 1, nActions = 2, logits = [PosInfinity, Finite 1]\<rparr>"

definition overflowPolicy :: policy64 where
  "overflowPolicy = \<lparr>height = 1, width = 1, nActions = 4,
                      logits = [PosInfinity, Finite 0, NegInfinity, Finite 1]\<rparr>"

text \<open>A corridor of two path cells, the goal on the right; sources of draws.\<close>

definition corridorEnv :: gridWorld where
  "corridorEnv = \<lparr>grid = [[Some 0, Some 0]], envHeight = 1, envWidth = 2,
                   start = (0, 0), goal = (0, 1)\<rparr>"

definition constSource :: "real \<Rightarrow> nat \<Rightarrow> real" where
  "constSource x = (\<lambda>i. x)"

text \<open>A policy on the corridor whose logits at the left cell favour \<open>UP\<close>, into the border.\<close>

definition upPolicy :: policy where
  "upPolicy = \<lparr>height = 1, width = 2, nActions = 4,
                logits = [0, - 20, - 20, - 20, 0, 0, 0, 0]\<rparr>"

text \<open>
  What one visited (state, action) contributes to slot \<open>i\<close> of the gradient: the entry of
  \<^verbatim>\<open>scoreFunction(state, action)\<close> that belongs to the slot, 0 for the slots of other
  states.
\<close>

definition scoreAt :: "policy \<Rightarrow> int \<times> int \<times> int \<Rightarrow> nat \<Rightarrow> real" where
  "scoreAt p sa i =
     (let (row, col, action) = sa;
          base = (row * int (width p) + col) * int (nActions p)
      in case scoreFunction p row col action of
           None \<Rightarrow> 0
         | Some sc \<Rightarrow>
             if base \<le> int i \<and> int i < base + int (nActions p) then sc ! nat (int i - base) else 0)"

text \<open>The gradient slot \<open>i\<close> as a sum over trajectories with their coefficients and over
  the steps of each.\<close>

definition gradSum :: "policy \<Rightarrow> (trajectory \<times> real) list \<Rightarrow> nat \<Rightarrow> real" where
  "gradSum p tcs i =
     (\<Sum>(t, coef) \<leftarrow> tcs. coef * (\<Sum>sa \<leftarrow> stateActions t. scoreAt p sa i))"

text \<open>
  The update as claim C1 words it: the accumulation of \<^verbatim>\<open>reinforceUpdate\<close>, factor
  \<open>1/N\<close> included, with the weight \<open>w_i = reward_i / K - 1 / N\<close> where
  \<^verbatim>\<open>reinforceUpdate\<close> has the advantage.
\<close>

definition maxrlUpdateClaimed ::
  "policy \<Rightarrow> gridWorld \<Rightarrow> pos list \<Rightarrow> real list \<Rightarrow> nat \<Rightarrow> real \<Rightarrow> int \<Rightarrow> rng
     \<Rightarrow> error + (real \<times> policy \<times> rng)" where
  "maxrlUpdateClaimed p env starts startProbs N lr maxSteps g =
     (case sampleBatch p env starts startProbs N maxSteps g of
        Inl e \<Rightarrow> Inl e
      | Inr (trajectories, g') \<Rightarrow>
          (let rewards = rewardsOf trajectories;
               K = sum_list rewards
           in if K > 0
              then (let grad0 = replicate (length (logits p)) 0
                    in case accumulate p
                              (zip trajectories
                                 (map (\<lambda>r. (1 / real N) * (r / K - 1 / real N)) rewards)) grad0 of
                         Inl e \<Rightarrow> Inl e
                       | Inr grad \<Rightarrow> Inr (K, clipLogits (applyGrad p lr grad), g'))
              else Inr (K, p, g')))"

text \<open>The policy the constructor builds for the corridor: all logits zero.\<close>

definition corridorPolicy :: policy where
  "corridorPolicy = \<lparr>height = 1, width = 2, nActions = 4, logits = [0, 0, 0, 0, 0, 0, 0, 0]\<rparr>"

text \<open>Draws for a batch of two on the corridor: the first rollout steps right, the second up.\<close>

definition mixedSource :: "nat \<Rightarrow> real" where
  "mixedSource i = (if i = 1 then 9 / 10 else 0)"

text \<open>A single path cell that is start and goal.\<close>

definition cellEnv :: gridWorld where
  "cellEnv = \<lparr>grid = [[Some 0]], envHeight = 1, envWidth = 1, start = (0, 0), goal = (0, 0)\<rparr>"


section \<open>clipLogits\<close>

lemma seg_finite: "finite (seg xs base n)"
  by (simp add: seg_def)

lemma seg_Suc: "seg xs base (Suc k) = (if base + k < length xs then insert (base + k) (seg xs base k) else seg xs base k)"
  by (auto simp: seg_def less_Suc_eq)

lemma maxAt_fold:
  "fold (\<lambda>a m. case rd xs (base + a) of None \<Rightarrow> m | Some v \<Rightarrow> if gtMax v m then Some v else m) [0..<k] None
     = (if seg xs base k = {} then None else Some (Max ((!) xs ` seg xs base k)))"
proof (induction k)
  case 0
  then show ?case by (simp add: seg_def)
next
  case (Suc k)
  show ?case
  proof (cases "base + k < length xs")
    case False
    then show ?thesis using Suc by (simp add: seg_Suc rd_def)
  next
    case True
    show ?thesis
    proof (cases "seg xs base k = {}")
      case True
      then show ?thesis using Suc \<open>base + k < length xs\<close>
        by (simp add: seg_Suc rd_def gtMax_def)
    next
      case False
      have fin: "finite ((!) xs ` seg xs base k)" by (simp add: seg_finite)
      have ne: "(!) xs ` seg xs base k \<noteq> {}" using False by simp
      have "Max (insert (xs ! (base + k)) ((!) xs ` seg xs base k))
              = max (xs ! (base + k)) (Max ((!) xs ` seg xs base k))"
        using Max_insert [OF fin ne] .
      then show ?thesis using Suc False \<open>base + k < length xs\<close>
        by (simp add: seg_Suc rd_def gtMax_def max_def)
    qed
  qed
qed

lemma maxAt_eq:
  "maxAt xs base n = (if seg xs base n = {} then None else Some (Max ((!) xs ` seg xs base n)))"
  unfolding maxAt_def by (rule maxAt_fold)

lemma writeLoop_Suc:
  "writeLoop F base (Suc k) xs =
     (case rd (writeLoop F base k xs) (base + k) of
        None \<Rightarrow> writeLoop F base k xs
      | Some z \<Rightarrow> (writeLoop F base k xs)[base + k := F z])"
  unfolding writeLoop_def by simp

lemma writeLoop_spec:
  "length (writeLoop F base k xs) = length xs
   \<and> (\<forall>i < length xs. writeLoop F base k xs ! i
          = (if base \<le> i \<and> i < base + k then F (xs ! i) else xs ! i))"
proof (induction k)
  case 0
  then show ?case by (simp add: writeLoop_def)
next
  case (Suc k)
  let ?G = "writeLoop F base"
  have len: "length (?G k xs) = length xs" using Suc by blast
  have nth: "\<And>i. i < length xs \<Longrightarrow> ?G k xs ! i = (if base \<le> i \<and> i < base + k then F (xs ! i) else xs ! i)"
    using Suc by blast
  show ?case
  proof (cases "base + k < length xs")
    case False
    then have "?G (Suc k) xs = ?G k xs" using len by (simp add: writeLoop_Suc rd_def)
    moreover have "\<And>i. i < length xs \<Longrightarrow> (i < base + Suc k) = (i < base + k)"
      using False by auto
    ultimately show ?thesis using len nth by simp
  next
    case True
    have eq: "?G (Suc k) xs = (?G k xs)[base + k := F (xs ! (base + k))]"
      using True len nth [of "base + k"] by (simp add: writeLoop_Suc rd_def)
    show ?thesis
    proof (intro conjI allI impI)
      show "length (?G (Suc k) xs) = length xs" by (simp add: eq len)
    next
      fix i assume i: "i < length xs"
      show "?G (Suc k) xs ! i = (if base \<le> i \<and> i < base + Suc k then F (xs ! i) else xs ! i)"
      proof (cases "i = base + k")
        case True
        then show ?thesis using i by (simp add: eq len)
      next
        case False
        then have "?G (Suc k) xs ! i = ?G k xs ! i" by (simp add: eq)
        also have "\<dots> = (if base \<le> i \<and> i < base + k then F (xs ! i) else xs ! i)" using nth [OF i] .
        also have "\<dots> = (if base \<le> i \<and> i < base + Suc k then F (xs ! i) else xs ! i)"
          using False by auto
        finally show ?thesis .
      qed
    qed
  qed
qed

lemma clipState_writeLoop:
  "clipState xs base n =
     writeLoop (\<lambda>z. case maxAt xs base n of None \<Rightarrow> MAX_LOGIT | Some m \<Rightarrow> clamp (z - m)) base n xs"
  by (simp add: clipState_def writeLoop_def)

lemma clipState_length [simp]: "length (clipState xs base n) = length xs"
  by (simp add: clipState_writeLoop writeLoop_spec)

lemma clipState_nth:
  assumes "i < length xs"
  shows "clipState xs base n ! i =
           (if base \<le> i \<and> i < base + n then clipVal xs base n (xs ! i) else xs ! i)"
proof (cases "base \<le> i \<and> i < base + n")
  case False
  have "clipState xs base n ! i = xs ! i"
    unfolding clipState_writeLoop using writeLoop_spec assms False by auto
  then show ?thesis using False by auto
next
  case True
  then have "i \<in> seg xs base n" using assms by (simp add: seg_def)
  then have "seg xs base n \<noteq> {}" by auto
  then have "maxAt xs base n = Some (Max ((!) xs ` seg xs base n))" by (simp add: maxAt_eq)
  then show ?thesis using assms True
    by (simp add: clipState_writeLoop writeLoop_spec clipVal_def)
qed

lemma states_upt:
  "concat (map (\<lambda>r. map (\<lambda>c. r * W + c) [0..<W]) [0..<H]) = [0..<H * W]"
proof (induction H)
  case 0
  then show ?case by simp
next
  case (Suc H)
  have "map (\<lambda>c. c + H * W) [0..<W] = [H * W..<W + H * W]" by (rule map_add_upt)
  then have "map (\<lambda>c. H * W + c) [0..<W] = [H * W..<H * W + W]"
    by (simp add: add.commute)
  moreover have "[0..<H * W + W] = [0..<H * W] @ [H * W..<H * W + W]"
    by (rule upt_add_eq_append) simp
  ultimately show ?case using Suc by (simp add: add.commute)
qed

lemma fold_concat_rows: "fold f (concat xss) ys = fold (fold f) xss ys"
  by (induction xss arbitrary: ys) simp_all

lemma clipLogits_flat:
  "logits (clipLogits p) =
     fold (\<lambda>s xs. clipState xs (s * nActions p) (nActions p)) [0..<height p * width p] (logits p)"
proof -
  let ?g = "\<lambda>s xs. clipState xs (s * nActions p) (nActions p)"
  let ?h = "\<lambda>r. map (\<lambda>c. r * width p + c) [0..<width p]"
  have inner: "\<And>r. fold (\<lambda>c xs. clipState xs ((r * width p + c) * nActions p) (nActions p)) [0..<width p]
                 = fold ?g (?h r)"
    by (simp only: fold_map o_def)
  have "fold ?g [0..<height p * width p] (logits p) = fold ?g (concat (map ?h [0..<height p])) (logits p)"
    by (simp only: states_upt)
  also have "\<dots> = fold (fold ?g) (map ?h [0..<height p]) (logits p)"
    by (rule fold_concat_rows)
  also have "\<dots> = fold (\<lambda>r. fold ?g (?h r)) [0..<height p] (logits p)"
    by (simp only: fold_map o_def)
  also have "\<dots> = fold (\<lambda>r. fold (\<lambda>c xs. clipState xs ((r * width p + c) * nActions p) (nActions p))
                         [0..<width p]) [0..<height p] (logits p)"
    by (simp only: inner)
  finally show ?thesis by (simp add: clipLogits_def)
qed

lemma in_block_iff:
  fixes n :: nat
  assumes "0 < n"
  shows "(k * n \<le> i \<and> i < k * n + n) = (i div n = k)"
proof
  assume "k * n \<le> i \<and> i < k * n + n"
  then show "i div n = k"
    by (intro div_nat_eqI) (simp_all add: mult.commute)
next
  assume e: "i div n = k"
  have "i div n * n \<le> i" by simp
  moreover have "i < n + i div n * n" using assms by (rule dividend_less_div_times)
  ultimately show "k * n \<le> i \<and> i < k * n + n" using e by (simp add: add.commute)
qed

lemma clipVal_cong:
  assumes "length xs = length ys" and "\<And>j. j \<in> seg ys base n \<Longrightarrow> xs ! j = ys ! j"
  shows "clipVal xs base n = clipVal ys base n"
proof -
  have s: "seg xs base n = seg ys base n" using assms(1) by (simp add: seg_def)
  have "(!) xs ` seg ys base n = (!) ys ` seg ys base n"
    using assms(2) by (intro image_cong) auto
  then show ?thesis by (simp add: clipVal_def s fun_eq_iff)
qed

lemma clipFold_spec:
  fixes L :: "real list"
  assumes n: "0 < n"
  shows "length (fold (\<lambda>s xs. clipState xs (s * n) n) [0..<k] L) = length L \<and>
         (\<forall>i<length L. fold (\<lambda>s xs. clipState xs (s * n) n) [0..<k] L ! i =
            (if i div n < k then clipVal L (i div n * n) n (L ! i) else L ! i))"
proof (induction k)
  case 0
  then show ?case by simp
next
  case (Suc k)
  let ?R = "\<lambda>k. fold (\<lambda>s xs. clipState xs (s * n) n) [0..<k] L"
  have len: "length (?R k) = length L" using Suc by blast
  have nth: "\<And>i. i < length L \<Longrightarrow>
      ?R k ! i = (if i div n < k then clipVal L (i div n * n) n (L ! i) else L ! i)"
    using Suc by blast
  have step: "?R (Suc k) = clipState (?R k) (k * n) n" by simp
  have same: "\<And>j. j \<in> seg L (k * n) n \<Longrightarrow> ?R k ! j = L ! j"
  proof -
    fix j assume "j \<in> seg L (k * n) n"
    then have "j < length L" and "j div n = k"
      using in_block_iff [OF n, of k j] by (auto simp: seg_def)
    then show "?R k ! j = L ! j" using nth [of j] by simp
  qed
  have cv: "clipVal (?R k) (k * n) n = clipVal L (k * n) n"
    using len same by (rule clipVal_cong)
  show ?case
  proof (intro conjI allI impI)
    show "length (?R (Suc k)) = length L" by (simp only: step clipState_length len)
  next
    fix i assume i: "i < length L"
    then have i': "i < length (?R k)" by (simp only: len)
    have r: "?R (Suc k) ! i = (if k * n \<le> i \<and> i < k * n + n
                 then clipVal (?R k) (k * n) n (?R k ! i) else ?R k ! i)"
      unfolding step using i' by (rule clipState_nth)
    show "?R (Suc k) ! i = (if i div n < Suc k then clipVal L (i div n * n) n (L ! i) else L ! i)"
    proof (cases "i div n = k")
      case True
      then have "k * n \<le> i \<and> i < k * n + n" using in_block_iff [OF n, of k i] by simp
      moreover have "?R k ! i = L ! i" using nth [OF i] True by simp
      ultimately have "?R (Suc k) ! i = clipVal L (k * n) n (L ! i)"
        using r cv by simp
      then show ?thesis using True by simp
    next
      case False
      then have "\<not> (k * n \<le> i \<and> i < k * n + n)" using in_block_iff [OF n, of k i] by simp
      then have "?R (Suc k) ! i = ?R k ! i" by (simp only: r if_False)
      moreover have "(i div n < Suc k) = (i div n < k)" using False by auto
      ultimately show ?thesis using nth [OF i] by simp
    qed
  qed
qed

lemma fold_skip: "fold (\<lambda>s xs. xs) ss ys = ys"
proof -
  have "fold (\<lambda>s. id) ss = id" by (rule List.fold_id) simp
  then have "fold (\<lambda>s. id) ss ys = id ys" by (rule fun_cong)
  then show ?thesis unfolding id_def .
qed

lemma clipLogits_length [simp]: "length (logits (clipLogits p)) = length (logits p)"
proof (cases "0 < nActions p")
  case True
  show ?thesis unfolding clipLogits_flat using clipFold_spec [OF True] by blast
next
  case False
  then show ?thesis by (simp add: clipLogits_flat clipState_def fold_skip)
qed

lemma clipLogits_nth:
  assumes "i < length (logits p)"
  shows "logits (clipLogits p) ! i =
           (if 0 < nActions p \<and> i div nActions p < height p * width p
            then clipVal (logits p) (i div nActions p * nActions p) (nActions p) (logits p ! i)
            else logits p ! i)"
proof (cases "0 < nActions p")
  case True
  have "logits (clipLogits p) ! i =
          (if i div nActions p < height p * width p
           then clipVal (logits p) (i div nActions p * nActions p) (nActions p) (logits p ! i)
           else logits p ! i)"
    unfolding clipLogits_flat using clipFold_spec [OF True] assms by blast
  then show ?thesis using True by simp
next
  case False
  then show ?thesis by (simp add: clipLogits_flat clipState_def fold_skip)
qed

lemma clipLogits_fields [simp]:
  "height (clipLogits p) = height p" "width (clipLogits p) = width p"
  "nActions (clipLogits p) = nActions p"
  by (simp_all add: clipLogits_def)

lemma clamp_nonpos: "x \<le> 0 \<Longrightarrow> - 20 \<le> clamp x \<and> clamp x \<le> 0"
  by (simp add: clamp_def MAX_LOGIT_def Let_def)

lemma clamp_zero [simp]: "clamp 0 = 0"
  by (simp add: clamp_def MAX_LOGIT_def Let_def)

lemma clamp_id: "- 20 \<le> x \<Longrightarrow> x \<le> 20 \<Longrightarrow> clamp x = x"
  by (simp add: clamp_def MAX_LOGIT_def Let_def)

lemma seg_clipped:
  assumes n: "0 < nActions p" and s: "s < height p * width p"
    and j: "j \<in> seg (logits p) (s * nActions p) (nActions p)"
  shows "- 20 \<le> logits (clipLogits p) ! j" and "logits (clipLogits p) ! j \<le> 0"
    and "\<exists>m \<in> seg (logits p) (s * nActions p) (nActions p). logits (clipLogits p) ! m = 0"
proof -
  let ?L = "logits p" and ?n = "nActions p"
  let ?S = "seg ?L (s * ?n) ?n"
  let ?M = "Max ((!) ?L ` ?S)"
  have fin: "finite ((!) ?L ` ?S)" by (simp add: seg_finite)
  have val: "\<And>m. m \<in> ?S \<Longrightarrow> logits (clipLogits p) ! m = clamp (?L ! m - ?M)"
  proof -
    fix m assume m: "m \<in> ?S"
    then have "m < length ?L" and "m div ?n = s"
      using in_block_iff [OF n, of s m] by (auto simp: seg_def)
    then show "logits (clipLogits p) ! m = clamp (?L ! m - ?M)"
      using n s by (simp add: clipLogits_nth clipVal_def)
  qed
  have "?L ! j \<le> ?M" using j fin by (intro Max_ge) auto
  then have "?L ! j - ?M \<le> 0" by simp
  then show "- 20 \<le> logits (clipLogits p) ! j" and "logits (clipLogits p) ! j \<le> 0"
    using clamp_nonpos val [OF j] by auto
  have "?M \<in> (!) ?L ` ?S" using j fin by (intro Max_in) auto
  then obtain m where m: "m \<in> ?S" "?L ! m = ?M" by auto
  then have "logits (clipLogits p) ! m = 0" using val [OF m(1)] by simp
  then show "\<exists>m \<in> ?S. logits (clipLogits p) ! m = 0" using m(1) by blast
qed

text \<open>
  On finite logits \<^verbatim>\<open>clipLogits\<close> is idempotent, whatever the length of the array, the
  dimensions and the number of actions.
\<close>

lemma clipLogits_twice: "clipLogits (clipLogits p) = clipLogits p"
proof -
  let ?q = "clipLogits p"
  have "logits (clipLogits ?q) = logits ?q"
  proof (rule nth_equalityI)
    show "length (logits (clipLogits ?q)) = length (logits ?q)" by simp
  next
    fix i assume "i < length (logits (clipLogits ?q))"
    then have i: "i < length (logits p)" by simp
    then have iq: "i < length (logits ?q)" by simp
    show "logits (clipLogits ?q) ! i = logits ?q ! i"
    proof (cases "0 < nActions p \<and> i div nActions p < height p * width p")
      case False
      have "\<not> (0 < nActions ?q \<and> i div nActions ?q < height ?q * width ?q)"
        using False by simp
      then show ?thesis by (simp only: clipLogits_nth [OF iq] if_False)
    next
      case True
      let ?n = "nActions p" and ?s = "i div nActions p"
      let ?S = "seg (logits p) (?s * ?n) ?n"
      have n: "0 < ?n" and s: "?s < height p * width p" using True by auto
      have iS: "i \<in> ?S" using i in_block_iff [OF n, of ?s i] by (simp add: seg_def)
      have Sq: "seg (logits ?q) (?s * ?n) ?n = ?S" by (simp add: seg_def)
      have fin: "finite ((!) (logits ?q) ` ?S)" by (simp add: seg_finite)
      obtain m where m: "m \<in> ?S" "logits ?q ! m = 0" using seg_clipped(3) [OF n s iS] by blast
      have "Max ((!) (logits ?q) ` ?S) = 0"
      proof (rule Max_eqI [OF fin])
        fix y assume "y \<in> (!) (logits ?q) ` ?S"
        then obtain j where "j \<in> ?S" "y = logits ?q ! j" by auto
        then show "y \<le> 0" using seg_clipped(2) [OF n s] by simp
      next
        show "0 \<in> (!) (logits ?q) ` ?S" using m by force
      qed
      then have "clipVal (logits ?q) (?s * ?n) ?n (logits ?q ! i) = clamp (logits ?q ! i)"
        by (simp add: clipVal_def Sq)
      also have "\<dots> = logits ?q ! i"
        using seg_clipped(1,2) [OF n s iS] by (intro clamp_id) auto
      finally show ?thesis using clipLogits_nth [OF iq] True by simp
    qed
  qed
  then show ?thesis by (simp add: clipLogits_def)
qed

lemma state_in_range:
  fixes r c H W :: nat
  assumes "r < H" "c < W"
  shows "r * W + c < H * W"
proof -
  have "r * W + c < Suc r * W" using assms(2) by simp
  also have "\<dots> \<le> H * W" using assms(1) by (intro mult_le_mono1) simp
  finally show ?thesis .
qed

text \<open>
  On finite logits, after \<^verbatim>\<open>clipLogits\<close>, for every state \<open>(r, c)\<close> of a policy whose
  logits array has the length the constructor gives it, the largest logit of the state is 0
  and every logit of the state is at least \<open>-20\<close>.
\<close>

lemma clipLogits_state_max:
  assumes wf: "length (logits p) = height p * width p * nActions p"
    and n: "0 < nActions p" and r: "r < height p" and c: "c < width p"
  shows "Max ((\<lambda>a. logits (clipLogits p) ! ((r * width p + c) * nActions p + a)) ` {..<nActions p}) = 0
       \<and> (\<forall>a<nActions p. - 20 \<le> logits (clipLogits p) ! ((r * width p + c) * nActions p + a))"
proof -
  let ?n = "nActions p" and ?s = "r * width p + c"
  let ?S = "seg (logits p) (?s * ?n) ?n"
  let ?z = "\<lambda>a. logits (clipLogits p) ! (?s * ?n + a)"
  have s: "?s < height p * width p" using r c by (rule state_in_range)
  have "Suc ?s * ?n \<le> height p * width p * ?n" using s by (intro mult_le_mono1) simp
  then have top: "?s * ?n + ?n \<le> length (logits p)" using wf by simp
  have inS: "\<And>a. a < ?n \<Longrightarrow> ?s * ?n + a \<in> ?S" using top by (simp add: seg_def)
  have lo: "\<And>a. a < ?n \<Longrightarrow> - 20 \<le> ?z a" using seg_clipped(1) [OF n s inS] .
  have hi: "\<And>a. a < ?n \<Longrightarrow> ?z a \<le> 0" using seg_clipped(2) [OF n s inS] .
  obtain m where m: "m \<in> ?S" "logits (clipLogits p) ! m = 0"
    using seg_clipped(3) [OF n s inS [OF n]] by blast
  then have "m - ?s * ?n < ?n" "?s * ?n + (m - ?s * ?n) = m" by (auto simp: seg_def)
  then have zero: "0 \<in> ?z ` {..<?n}" using m(2) by force
  have "Max (?z ` {..<?n}) = 0"
  proof (rule Max_eqI)
    show "finite (?z ` {..<?n})" by simp
  next
    fix y assume "y \<in> ?z ` {..<?n}"
    then show "y \<le> 0" using hi by auto
  next
    show "0 \<in> ?z ` {..<?n}" by (rule zero)
  qed
  then show ?thesis using lo by simp
qed

lemma demoPolicy_clipped: "logits (clipLogits demoPolicy) = [- 2, - 1, 0, - 20]"
  by (simp add: demoPolicy_def clipLogits_def clipState_def maxAt_def rd_def gtMax_def clamp_def
      MAX_LOGIT_def upt_rec)

text \<open>A policy as the constructor builds it, all logits zero, is left unchanged by \<^verbatim>\<open>clipLogits\<close>.\<close>

lemma clipLogits_fresh: "clipLogits (TabularSoftmaxPolicy h w n) = TabularSoftmaxPolicy h w n"
proof -
  let ?p = "TabularSoftmaxPolicy h w n"
  let ?L = "replicate (h * w * n) (0::real)"
  have lg: "logits ?p = ?L" and na: "nActions ?p = n"
    by (simp_all add: TabularSoftmaxPolicy_def)
  have "logits (clipLogits ?p) = logits ?p"
  proof (rule nth_equalityI)
    show "length (logits (clipLogits ?p)) = length (logits ?p)" by simp
  next
    fix i assume "i < length (logits (clipLogits ?p))"
    then have i: "i < length (logits ?p)" by simp
    then have i': "i < h * w * n" by (simp add: lg)
    show "logits (clipLogits ?p) ! i = logits ?p ! i"
    proof (cases "0 < nActions ?p \<and> i div nActions ?p < height ?p * width ?p")
      case False
      then show ?thesis by (simp only: clipLogits_nth [OF i] if_False)
    next
      case True
      let ?S = "seg ?L (i div n * n) n"
      have n: "0 < n" using True by (simp add: na)
      have "i \<in> ?S" using i' in_block_iff [OF n, of "i div n" i] by (simp add: seg_def)
      moreover have "\<And>j. j \<in> ?S \<Longrightarrow> ?L ! j = 0" by (simp add: seg_def)
      ultimately have "(!) ?L ` ?S = {0}" by (auto simp: image_iff)
      then have "clipVal ?L (i div n * n) n (?L ! i) = 0"
        using i' by (simp add: clipVal_def)
      then have "logits (clipLogits ?p) ! i = 0"
        using True by (simp add: clipLogits_nth [OF i] lg na)
      then show ?thesis using i' by (simp add: lg)
    qed
  qed
  then show ?thesis by (simp add: clipLogits_def)
qed

section \<open>clipLogits64: finite and non-finite logits\<close>

text \<open>On a logits array of finite doubles \<open>clipLogits64\<close> does what \<open>clipLogits\<close> does.\<close>

lemma rd64_finite:
  "rd64 (map Finite ys) i = (case rd ys i of None \<Rightarrow> NotANumber | Some z \<Rightarrow> Finite z)"
  by (simp add: rd64_def rd_def)

lemma maxFold64_finite:
  "fold (\<lambda>a maxVal. let v = rd64 (map Finite xs) (base + a) in if gt64 v maxVal then v else maxVal)
        as (case m of None \<Rightarrow> NegInfinity | Some y \<Rightarrow> Finite y)
   = (case fold (\<lambda>a m. case rd xs (base + a) of
                          None \<Rightarrow> m
                        | Some v \<Rightarrow> if gtMax v m then Some v else m) as m of
        None \<Rightarrow> NegInfinity | Some y \<Rightarrow> Finite y)"
proof (induction as arbitrary: m)
  case Nil
  then show ?case by simp
next
  case (Cons a as)
  show ?case
  proof (cases "rd xs (base + a)")
    case None
    then show ?thesis using Cons.IH [of m] by (simp add: rd64_finite)
  next
    case (Some v)
    show ?thesis
    proof (cases m)
      case None
      then show ?thesis using Some Cons.IH [of "Some v"] by (simp add: rd64_finite gtMax_def)
    next
      case (Some y)
      then show ?thesis using \<open>rd xs (base + a) = Some v\<close> Cons.IH [of "Some v"] Cons.IH [of "Some y"]
        by (simp add: rd64_finite gtMax_def)
    qed
  qed
qed

lemma maxAt64_finite:
  "maxAt64 (map Finite xs) base n =
     (case maxAt xs base n of None \<Rightarrow> NegInfinity | Some y \<Rightarrow> Finite y)"
  unfolding maxAt64_def maxAt_def using maxFold64_finite [of xs base "[0..<n]" None] by simp

lemma clamp64_finite: "clamp64 (Finite x) = Finite (clamp x)"
  by (simp add: clamp64_def clamp_def lt64_def Let_def)

lemma clamp64_PosInfinity: "clamp64 PosInfinity = Finite MAX_LOGIT"
  by (simp add: clamp64_def lt64_def Let_def)

lemma writeFold64_finite:
  "fold (\<lambda>a ys. ys[base + a :=
            clamp64 (sub64 (rd64 ys (base + a)) (case m of None \<Rightarrow> NegInfinity | Some y \<Rightarrow> Finite y))])
        as (map Finite xs)
   = map Finite (fold (\<lambda>a ys. case rd ys (base + a) of
                         None \<Rightarrow> ys
                       | Some z \<Rightarrow> ys[base + a :=
                                      (case m of None \<Rightarrow> MAX_LOGIT
                                               | Some y \<Rightarrow> clamp (z - y))]) as xs)"
proof (induction as arbitrary: xs)
  case Nil
  then show ?case by simp
next
  case (Cons a as)
  show ?case
  proof (cases "base + a < length xs")
    case False
    then show ?thesis using Cons.IH [of xs] by (simp add: rd_def list_update_beyond)
  next
    case True
    show ?thesis
    proof (cases m)
      case None
      then show ?thesis
        using True Cons.IH [of "xs[base + a := MAX_LOGIT]"]
        by (simp add: rd_def rd64_def clamp64_PosInfinity map_update)
    next
      case (Some y)
      then show ?thesis
        using True Cons.IH [of "xs[base + a := clamp (xs ! (base + a) - y)]"]
        by (simp add: rd_def rd64_def clamp64_finite map_update)
    qed
  qed
qed

lemma clipState64_finite:
  "clipState64 (map Finite xs) base n = map Finite (clipState xs base n)"
  unfolding clipState64_def clipState_def Let_def maxAt64_finite
  by (rule writeFold64_finite)

lemma colFold64_finite:
  "fold (\<lambda>c xs. clipState64 xs (f c) n) cs (map Finite xs)
     = map Finite (fold (\<lambda>c xs. clipState xs (f c) n) cs xs)"
  by (induction cs arbitrary: xs) (simp_all add: clipState64_finite)

lemma rowFold64_finite:
  "fold (\<lambda>r. fold (\<lambda>c xs. clipState64 xs (f r c) n) cs) rs (map Finite xs)
     = map Finite (fold (\<lambda>r. fold (\<lambda>c xs. clipState xs (f r c) n) cs) rs xs)"
  by (induction rs arbitrary: xs) (simp_all add: colFold64_finite)

lemma clipLogits64_finite: "clipLogits64 (finitePolicy p) = finitePolicy (clipLogits p)"
  unfolding clipLogits64_def clipLogits_def finitePolicy_def
  by (simp add: rowFold64_finite)

lemma finitePolicy_fields [simp]:
  "height (finitePolicy p) = height p" "width (finitePolicy p) = width p"
  "nActions (finitePolicy p) = nActions p" "logits (finitePolicy p) = map Finite (logits p)"
  by (simp_all add: finitePolicy_def)

lemma finite_list: "\<forall>z \<in> set zs. isFinite z \<Longrightarrow> \<exists>xs. zs = map Finite xs"
proof (induction zs)
  case Nil
  then show ?case by simp
next
  case (Cons z zs)
  then obtain xs where "zs = map Finite xs" by auto
  moreover obtain x where "z = Finite x" using Cons.prems by (cases z) auto
  ultimately have "z # zs = map Finite (x # xs)" by simp
  then show ?case by (rule exI)
qed

lemma finite_policy:
  fixes p :: policy64
  assumes "\<forall>z \<in> set (logits p). isFinite z"
  shows "\<exists>q. p = finitePolicy q"
proof -
  obtain xs where "logits p = map Finite xs" using finite_list [OF assms] by blast
  then have "p = finitePolicy \<lparr>height = height p, width = width p, nActions = nActions p, logits = xs\<rparr>"
    by (simp add: finitePolicy_def)
  then show ?thesis by blast
qed

lemma demoPolicy64_clipped:
  "logits (clipLogits64 demoPolicy64) = [Finite (- 2), Finite (- 1), Finite 0, Finite (- 20)]"
  unfolding demoPolicy64_def by code_simp

text \<open>
  Claim C10, as amended: on a logits array whose entries are all finite, whatever its
  length, the dimensions and the number of actions, \<^verbatim>\<open>clipLogits\<close> is idempotent:
  calling it twice leaves the policy that calling it once leaves.
\<close>

theorem clipLogits64_idempotent:
  assumes fin: "\<forall>z \<in> set (logits p). isFinite z"
  shows "clipLogits64 (clipLogits64 p) = clipLogits64 p"
proof -
  obtain q where q: "p = finitePolicy q" using finite_policy [OF fin] by blast
  have "clipLogits64 (clipLogits64 (finitePolicy q)) = finitePolicy (clipLogits (clipLogits q))"
    by (simp only: clipLogits64_finite)
  also have "\<dots> = finitePolicy (clipLogits q)" by (simp only: clipLogits_twice)
  also have "\<dots> = clipLogits64 (finitePolicy q)" by (simp only: clipLogits64_finite)
  finally show ?thesis unfolding q .
qed

theorem clipLogits64_idempotent_witness:
  "clipLogits64 (clipLogits64 demoPolicy64) = clipLogits64 demoPolicy64
   \<and> logits (clipLogits64 demoPolicy64) = [Finite (- 2), Finite (- 1), Finite 0, Finite (- 20)]"
proof -
  have "\<forall>z \<in> set (logits demoPolicy64). isFinite z" by (simp add: demoPolicy64_def)
  then show ?thesis using clipLogits64_idempotent [of demoPolicy64] demoPolicy64_clipped by simp
qed

text \<open>
  Claim C10 as stated, for any logits array, fails: on the state \<^verbatim>\<open>[Infinity, 1]\<close> the
  first call stores \<^verbatim>\<open>[NaN, -20]\<close> (the maximum is \<^verbatim>\<open>Infinity\<close>, and
  \<^verbatim>\<open>Infinity - Infinity\<close> is NaN), and the second call, whose maximum is \<open>-20\<close>, stores
  \<^verbatim>\<open>[NaN, 0]\<close>.
\<close>

theorem clipLogits64_twice_counterexample:
  "logits infinityPolicy = [PosInfinity, Finite 1]
   \<and> logits (clipLogits64 infinityPolicy) = [NotANumber, Finite (- 20)]
   \<and> logits (clipLogits64 (clipLogits64 infinityPolicy)) = [NotANumber, Finite 0]
   \<and> clipLogits64 (clipLogits64 infinityPolicy) \<noteq> clipLogits64 infinityPolicy"
proof -
  have a: "logits (clipLogits64 infinityPolicy) = [NotANumber, Finite (- 20)]"
    unfolding infinityPolicy_def by code_simp
  have b: "logits (clipLogits64 (clipLogits64 infinityPolicy)) = [NotANumber, Finite 0]"
    unfolding infinityPolicy_def by code_simp
  have "logits (clipLogits64 (clipLogits64 infinityPolicy)) \<noteq> logits (clipLogits64 infinityPolicy)"
    unfolding a b by simp
  then have "clipLogits64 (clipLogits64 infinityPolicy) \<noteq> clipLogits64 infinityPolicy" by auto
  then show ?thesis using a b by (simp add: infinityPolicy_def)
qed

text \<open>
  Claim C4, as amended: after \<^verbatim>\<open>clipLogits\<close> on a logits array whose entries are all
  finite and which has the length the constructor gives it, for every state \<open>(r, c)\<close> the
  logits of the state are finite numbers \<open>zs\<close> whose maximum is 0 and which are all at
  least \<open>-20\<close>.
\<close>

theorem clipLogits64_max_zero:
  assumes fin: "\<forall>z \<in> set (logits p). isFinite z"
    and wf: "length (logits p) = height p * width p * nActions p"
    and n: "0 < nActions p" and r: "r < height p" and c: "c < width p"
  shows "\<exists>zs. length zs = nActions p
           \<and> (\<forall>a<nActions p. logits (clipLogits64 p) ! ((r * width p + c) * nActions p + a)
                                  = Finite (zs ! a))
           \<and> Max (set zs) = 0 \<and> (\<forall>z \<in> set zs. - 20 \<le> z)"
proof -
  obtain q where q: "p = finitePolicy q" using finite_policy [OF fin] by blast
  let ?n = "nActions q" and ?base = "(r * width q + c) * nActions q"
  let ?z = "\<lambda>a. logits (clipLogits q) ! (?base + a)"
  let ?zs = "map ?z [0..<?n]"
  have wfq: "length (logits q) = height q * width q * nActions q" using wf by (simp add: q)
  have nq: "0 < nActions q" and rq: "r < height q" and cq: "c < width q"
    using n r c by (simp_all add: q)
  have real: "Max (?z ` {..<?n}) = 0 \<and> (\<forall>a<?n. - 20 \<le> ?z a)"
    using clipLogits_state_max [OF wfq nq rq cq] .
  have s: "r * width q + c < height q * width q" using rq cq by (rule state_in_range)
  have "Suc (r * width q + c) * ?n \<le> height q * width q * ?n" using s by (intro mult_le_mono1) simp
  then have top: "?base + ?n \<le> length (logits q)" using wfq by simp
  have set: "set ?zs = ?z ` {..<?n}" by (simp add: atLeast0LessThan)
  have "\<And>a. a < ?n \<Longrightarrow> logits (clipLogits64 (finitePolicy q)) ! (?base + a) = Finite (?zs ! a)"
  proof -
    fix a assume a: "a < ?n"
    then have "?base + a < length (logits (clipLogits q))" using top by simp
    then show "logits (clipLogits64 (finitePolicy q)) ! (?base + a) = Finite (?zs ! a)"
      using a by (simp add: clipLogits64_finite)
  qed
  moreover have "length ?zs = ?n" by simp
  moreover have "Max (set ?zs) = 0" using real set by simp
  moreover have "\<forall>z \<in> set ?zs. - 20 \<le> z" using real by auto
  ultimately have "length ?zs = nActions p
           \<and> (\<forall>a<nActions p. logits (clipLogits64 p) ! ((r * width p + c) * nActions p + a)
                                  = Finite (?zs ! a))
           \<and> Max (set ?zs) = 0 \<and> (\<forall>z \<in> set ?zs. - 20 \<le> z)"
    unfolding q by simp
  then show ?thesis by (rule exI)
qed

theorem clipLogits64_max_zero_witness:
  "\<exists>zs. length zs = nActions demoPolicy64
      \<and> (\<forall>a<nActions demoPolicy64.
            logits (clipLogits64 demoPolicy64) ! ((0 * width demoPolicy64 + 0) * nActions demoPolicy64 + a)
              = Finite (zs ! a))
      \<and> Max (set zs) = 0 \<and> (\<forall>z \<in> set zs. - 20 \<le> z)"
proof -
  have fin: "\<forall>z \<in> set (logits demoPolicy64). isFinite z"
    and wf: "length (logits demoPolicy64) = height demoPolicy64 * width demoPolicy64 * nActions demoPolicy64"
    and n: "0 < nActions demoPolicy64" and r: "0 < height demoPolicy64" and c: "0 < width demoPolicy64"
    by (simp_all add: demoPolicy64_def)
  show ?thesis using clipLogits64_max_zero [OF fin wf n r c] .
qed

lemma overflowPolicy_clipped:
  "logits (clipLogits64 overflowPolicy) = [NotANumber, Finite (- 20), Finite (- 20), Finite (- 20)]"
  unfolding overflowPolicy_def by code_simp

text \<open>
  Claim C4 as stated, after any call, fails: on the state \<^verbatim>\<open>[Infinity, 0, -Infinity, 1]\<close>
  the call stores \<^verbatim>\<open>[NaN, -20, -20, -20]\<close>. The first logit is NaN, and the largest of
  the others, which is what the maximum loop of the source finds, is \<open>-20\<close>, not 0.
\<close>

theorem clipLogits64_infinity_counterexample:
  "logits overflowPolicy = [PosInfinity, Finite 0, NegInfinity, Finite 1]
   \<and> logits (clipLogits64 overflowPolicy) = [NotANumber, Finite (- 20), Finite (- 20), Finite (- 20)]
   \<and> maxAt64 (logits (clipLogits64 overflowPolicy)) 0 4 = Finite (- 20)
   \<and> \<not> (\<exists>zs. length zs = nActions overflowPolicy
           \<and> (\<forall>a<nActions overflowPolicy.
                 logits (clipLogits64 overflowPolicy) ! ((0 * width overflowPolicy + 0) * nActions overflowPolicy + a)
                   = Finite (zs ! a))
           \<and> Max (set zs) = 0 \<and> (\<forall>z \<in> set zs. - 20 \<le> z))"
proof -
  have m: "maxAt64 [NotANumber, Finite (- 20), Finite (- 20), Finite (- 20)] 0 4 = Finite (- 20)"
    by code_simp
  have "\<And>zs. \<not> (\<forall>a<nActions overflowPolicy.
                 logits (clipLogits64 overflowPolicy) ! ((0 * width overflowPolicy + 0) * nActions overflowPolicy + a)
                   = Finite (zs ! a))"
  proof
    fix zs
    assume "\<forall>a<nActions overflowPolicy.
                 logits (clipLogits64 overflowPolicy) ! ((0 * width overflowPolicy + 0) * nActions overflowPolicy + a)
                   = Finite (zs ! a)"
    then have "logits (clipLogits64 overflowPolicy) ! ((0 * width overflowPolicy + 0) * nActions overflowPolicy + 0)
                   = Finite (zs ! 0)"
      by (simp add: overflowPolicy_def)
    then show False by (simp add: overflowPolicy_clipped)
  qed
  then show ?thesis using m by (simp add: overflowPolicy_clipped) (simp add: overflowPolicy_def)
qed

section \<open>Rollout\<close>

lemma corridorEnv_built: "GridWorld [[Some 0, Some 0]] (0, 0) (0, 1) = Inr corridorEnv"
  by (simp add: GridWorld_def corridorEnv_def)

lemmas eval_defs = rollout_def sampleAction_def getProbs_def mathRandom_def step_def isPath_def
  inBounds_def cellAt_def ACTION_DELTAS_def rdi_def rd_def gtMax_def TabularSoftmaxPolicy_def
  corridorEnv_def constSource_def upt_rec Let_def

lemma rolloutLoop_shape:
  "rolloutLoop p env k ps sa pth g = Inr (t, g') \<Longrightarrow>
     \<exists>sas ext. stateActions t = sa @ sas \<and> path t = pth @ ext \<and> length ext = length sas"
proof (induction k arbitrary: ps sa pth g)
  case 0
  then show ?case by auto
next
  case (Suc k)
  show ?case
  proof (cases "ps = goal env")
    case True
    then show ?thesis using Suc.prems by auto
  next
    case False
    obtain a g1 where sm: "sampleAction p (fst ps) (snd ps) g = (a, g1)"
      by (cases "sampleAction p (fst ps) (snd ps) g") auto
    show ?thesis
    proof (cases "step env ps a")
      case (Inl e)
      then show ?thesis using Suc.prems False sm by simp
    next
      case (Inr res)
      obtain np dn where res: "res = (np, dn)" by (cases res) auto
      have "rolloutLoop p env k np (sa @ [(fst ps, snd ps, a)]) (pth @ [np]) g1 = Inr (t, g')"
        using Suc.prems False sm Inr res by simp
      from Suc.IH [OF this] obtain sas ext where
        "stateActions t = (sa @ [(fst ps, snd ps, a)]) @ sas" "path t = (pth @ [np]) @ ext"
        "length ext = length sas" by blast
      then have "stateActions t = sa @ ((fst ps, snd ps, a) # sas) \<and> path t = pth @ (np # ext)
          \<and> length (np # ext) = length ((fst ps, snd ps, a) # sas)" by simp
      then show ?thesis by blast
    qed
  qed
qed

lemma pick_range: "pick qs r c a0 = Some a \<Longrightarrow> a0 \<le> a \<and> a < a0 + length qs"
proof (induction qs arbitrary: c a0)
  case Nil
  then show ?case by simp
next
  case (Cons q qs)
  show ?case
  proof (cases "r < c + q")
    case True
    then show ?thesis using Cons.prems by simp
  next
    case False
    then have "pick qs r (c + q) (Suc a0) = Some a" using Cons.prems by simp
    from Cons.IH [OF this] show ?thesis by simp
  qed
qed

lemma getProbs_length: "getProbs p row col = Some ps \<Longrightarrow> length ps \<le> nActions p"
  by (auto simp: getProbs_def Let_def split: if_splits option.splits)

lemma sampleAction_range:
  assumes "1 \<le> nActions p"
  shows "0 \<le> fst (sampleAction p row col g) \<and> fst (sampleAction p row col g) < int (nActions p)"
proof -
  obtain r g1 where mr: "mathRandom g = (r, g1)" by (cases "mathRandom g") auto
  show ?thesis
  proof (cases "getProbs p row col")
    case None
    then show ?thesis using assms mr by (simp add: sampleAction_def)
  next
    case (Some ps)
    note gp = Some
    note len = getProbs_length [OF Some]
    show ?thesis
    proof (cases "pick ps r 0 0")
      case None
      then show ?thesis using assms gp mr by (simp add: sampleAction_def)
    next
      case (Some a)
      from pick_range [OF Some] len have "a < nActions p" by simp
      then show ?thesis using Some gp mr by (simp add: sampleAction_def)
    qed
  qed
qed

lemma isPath_Inr:
  assumes "envHeight env \<le> length (grid env)"
  shows "isPath env r c = Inr (inBounds env r c \<and> cellAt (grid env) r c = Some 0)"
  using assms by (auto simp: isPath_def inBounds_def)

lemma step_returns:
  assumes "0 \<le> a" "a < 4" "envHeight env \<le> length (grid env)"
  shows "\<exists>np dn. step env ps a = Inr (np, dn)"
  using assms(1,2)
  by (simp add: step_def ACTION_DELTAS_def Let_def isPath_Inr [OF assms(3)] split: prod.splits)

lemma rolloutLoop_returns:
  assumes "1 \<le> nActions p" "nActions p \<le> 4" "envHeight env \<le> length (grid env)"
  shows "\<exists>t g'. rolloutLoop p env k ps sa pth g = Inr (t, g')"
proof (induction k arbitrary: ps sa pth g)
  case 0
  then show ?case by simp
next
  case (Suc k)
  obtain a g1 where sm: "sampleAction p (fst ps) (snd ps) g = (a, g1)"
    by (cases "sampleAction p (fst ps) (snd ps) g") auto
  have "0 \<le> a \<and> a < int (nActions p)"
    using sampleAction_range [OF assms(1), of "fst ps" "snd ps" g] sm by simp
  then have "0 \<le> a" "a < 4" using assms(2) by auto
  from step_returns [OF this assms(3)] obtain np dn where "step env ps a = Inr (np, dn)" by blast
  then show ?case using sm Suc.IH by simp
qed

text \<open>
  Claim C7: a trajectory returned by \<^verbatim>\<open>rollout\<close> from a given start has one more
  position than it has state-action pairs and begins at the start; \<^verbatim>\<open>rollout\<close> does return
  one when the policy has between one and four actions and the environment is one a
  constructor call built; and from a start that is the goal it returns at once, with
  \<open>reachedGoal\<close> true and no state-action pair. This holds for every \<open>maxSteps\<close>.
\<close>

theorem rollout_shape:
  "(\<forall>t g'. rollout p env (Some s) maxSteps g = Inr (t, g') \<longrightarrow>
       length (path t) = length (stateActions t) + 1 \<and> path t ! 0 = s)
   \<and> (1 \<le> nActions p \<and> nActions p \<le> 4 \<and> envHeight env \<le> length (grid env) \<longrightarrow>
       (\<exists>t g'. rollout p env (Some s) maxSteps g = Inr (t, g')))
   \<and> (s = goal env \<longrightarrow>
       rollout p env (Some s) maxSteps g =
         Inr (\<lparr>stateActions = [], reachedGoal = True, path = [s]\<rparr>, g))"
proof (intro conjI allI impI)
  fix t g' assume "rollout p env (Some s) maxSteps g = Inr (t, g')"
  then have "rolloutLoop p env (nat maxSteps) s [] [s] g = Inr (t, g')"
    by (simp add: rollout_def)
  from rolloutLoop_shape [OF this] obtain sas ext where
    "stateActions t = sas" "path t = s # ext" "length ext = length sas" by auto
  then show "length (path t) = length (stateActions t) + 1" and "path t ! 0 = s" by simp_all
next
  assume "1 \<le> nActions p \<and> nActions p \<le> 4 \<and> envHeight env \<le> length (grid env)"
  then show "\<exists>t g'. rollout p env (Some s) maxSteps g = Inr (t, g')"
    using rolloutLoop_returns [of p env] by (simp add: rollout_def)
next
  assume "s = goal env"
  then show "rollout p env (Some s) maxSteps g =
         Inr (\<lparr>stateActions = [], reachedGoal = True, path = [s]\<rparr>, g)"
    by (cases "nat maxSteps") (simp_all add: rollout_def)
qed

lemma corridor_rollout:
  "rollout (TabularSoftmaxPolicy 1 2 4) corridorEnv (Some (0, 0)) 1 (constSource (9/10), 0)
   = Inr (\<lparr>stateActions = [(0, 0, 3)], reachedGoal = True, path = [(0, 0), (0, 1)]\<rparr>,
          (constSource (9/10), 1))"
  by (simp add: eval_defs)

theorem rollout_shape_witness:
  "length (path \<lparr>stateActions = [(0, 0, 3)], reachedGoal = True, path = [(0, 0), (0, 1)]\<rparr>)
     = length (stateActions \<lparr>stateActions = [(0, 0, 3)], reachedGoal = True,
                              path = [(0, 0), (0, 1)]\<rparr>) + 1
   \<and> (\<exists>t g'. rollout (TabularSoftmaxPolicy 1 2 4) corridorEnv (Some (0, 0)) 1
                 (constSource (9/10), 0) = Inr (t, g'))
   \<and> rollout (TabularSoftmaxPolicy 1 2 4) corridorEnv (Some (0, 1)) 1 (constSource (9/10), 0) =
         Inr (\<lparr>stateActions = [], reachedGoal = True, path = [(0, 1)]\<rparr>, (constSource (9/10), 0))"
proof -
  have a: "1 \<le> nActions (TabularSoftmaxPolicy 1 2 4) \<and> nActions (TabularSoftmaxPolicy 1 2 4) \<le> 4
        \<and> envHeight corridorEnv \<le> length (grid corridorEnv)"
    by (simp add: TabularSoftmaxPolicy_def corridorEnv_def)
  have b: "(0, 1) = goal corridorEnv" by (simp add: corridorEnv_def)
  note th = rollout_shape [of "TabularSoftmaxPolicy 1 2 4" corridorEnv _ 1 "(constSource (9/10), 0)"]
  show ?thesis using th [of "(0, 0)"] th [of "(0, 1)"] a b corridor_rollout by blast
qed

section \<open>Evaluation\<close>

lemma step_done: "step env ps a = Inr (np, d) \<Longrightarrow> d = (np = goal env)"
  by (auto simp: step_def Let_def split: if_splits prod.splits sum.splits)

lemma sampleAction_rng: "snd (sampleAction p row col g) = (fst g, Suc (snd g))"
  by (simp add: sampleAction_def mathRandom_def Let_def split: option.splits)

lemma rolloutLoop_stuck:
  assumes bump: "step env s a = Inr (s, False)"
    and fav: "\<forall>i. fst (sampleAction p (fst s) (snd s) (src, i)) = a"
  shows "rolloutLoop p env k s sa pth (src, i) =
           Inr (\<lparr>stateActions = sa @ replicate k (fst s, snd s, a), reachedGoal = False,
                  path = pth @ replicate k s\<rparr>, (src, i + k))"
proof (induction k arbitrary: sa pth i)
  case 0
  have "s \<noteq> goal env" using step_done [OF bump] by simp
  then show ?case by simp
next
  case (Suc k)
  have ng: "s \<noteq> goal env" using step_done [OF bump] by simp
  have "fst (sampleAction p (fst s) (snd s) (src, i)) = a" using fav by blast
  moreover have "snd (sampleAction p (fst s) (snd s) (src, i)) = (src, Suc i)"
    by (simp add: sampleAction_rng)
  ultimately have sm: "sampleAction p (fst s) (snd s) (src, i) = (a, (src, Suc i))"
    by (metis prod.collapse)
  have "rolloutLoop p env (Suc k) s sa pth (src, i) =
          rolloutLoop p env k s (sa @ [(fst s, snd s, a)]) (pth @ [s]) (src, Suc i)"
    using ng sm bump by simp
  also have "\<dots> = Inr (\<lparr>stateActions = (sa @ [(fst s, snd s, a)]) @ replicate k (fst s, snd s, a),
                  reachedGoal = False, path = (pth @ [s]) @ replicate k s\<rparr>, (src, Suc i + k))"
    by (rule Suc.IH)
  finally show ?case by (simp add: replicate_append_same)
qed

lemma countSuccesses_stuck:
  assumes bump: "step env s a = Inr (s, False)"
    and fav: "\<forall>i. fst (sampleAction p (fst s) (snd s) (src, i)) = a"
  shows "countSuccesses p env (Some s) k maxSteps c (src, i) =
           Inr (c, (src, i + k * nat maxSteps))"
proof (induction k arbitrary: i)
  case 0
  then show ?case by simp
next
  case (Suc k)
  have "rollout p env (Some s) maxSteps (src, i) =
          Inr (\<lparr>stateActions = replicate (nat maxSteps) (fst s, snd s, a), reachedGoal = False,
                 path = [s] @ replicate (nat maxSteps) s\<rparr>, (src, i + nat maxSteps))"
    using rolloutLoop_stuck [OF bump fav, of "nat maxSteps" "[]" "[s]" i] by (simp add: rollout_def)
  then show ?case using Suc.IH [of "i + nat maxSteps"] by (simp add: add.assoc add.commute)
qed

text \<open>
  Claim C8: when the action the policy samples at the start is, at every draw, one that
  walks into a wall (the step leaves the position where it is, and that is not the goal),
  no rollout reaches the goal and \<^verbatim>\<open>evaluateFromStart\<close> returns the fraction 0, for every
  \<open>nEval \<ge> 1\<close> and every \<open>maxSteps\<close>.
\<close>

theorem evaluateFromStart_stuck:
  assumes "step env s a = Inr (s, False)"
    and "\<forall>i. fst (sampleAction p (fst s) (snd s) (src, i)) = a"
    and "1 \<le> nEval"
  shows "evaluateFromStart p env (Some s) nEval maxSteps (src, i) =
           Inr (0, (src, i + nEval * nat maxSteps))"
  using assms(3) by (simp add: evaluateFromStart_def countSuccesses_stuck [OF assms(1,2)])

lemma upPolicy_samples_up: "fst (sampleAction upPolicy 0 0 (constSource 0, i)) = 0"
  by (simp add: sampleAction_def getProbs_def mathRandom_def rdi_def rd_def gtMax_def
      upPolicy_def constSource_def upt_rec Let_def add_pos_pos)

lemma corridor_bump: "step corridorEnv (0, 0) 0 = Inr ((0, 0), False)"
  by (simp add: step_def isPath_def inBounds_def ACTION_DELTAS_def corridorEnv_def)

theorem evaluateFromStart_stuck_witness:
  "evaluateFromStart upPolicy corridorEnv (Some (0, 0)) 3 5 (constSource 0, 0) =
     Inr (0, (constSource 0, 0 + 3 * nat 5))"
proof -
  have a: "\<forall>i. fst (sampleAction upPolicy (fst (0, 0)) (snd (0, 0)) (constSource 0, i)) = 0"
    by (simp add: upPolicy_samples_up)
  have b: "(1::nat) \<le> 3" by simp
  show ?thesis by (rule evaluateFromStart_stuck [OF corridor_bump a b])
qed

section \<open>Training updates\<close>

lemma foldE_snoc:
  "foldE f (xs @ [x]) s = (case foldE f xs s of Inl e \<Rightarrow> Inl e | Inr s' \<Rightarrow> f x s')"
  by (induction xs arbitrary: s) (auto split: sum.splits)

lemma maxFold_Some:
  "fold (\<lambda>v m. if gtMax v m then Some v else m) zs (Some m) \<noteq> None"
  by (induction zs arbitrary: m) auto

lemma gtMax_None: "gtMax v None"
  by (simp add: gtMax_def)

lemma maxFold_None: "fold (\<lambda>v m. if gtMax v m then Some v else m) zs None = None \<Longrightarrow> zs = []"
  by (cases zs) (simp_all add: gtMax_None maxFold_Some)

lemma getProbs_in_range:
  assumes "0 \<le> base" "nat base + nActions p \<le> length (logits p)"
    and "base = (row * int (width p) + col) * int (nActions p)"
  shows "\<exists>ps. getProbs p row col = Some ps \<and> length ps = nActions p"
proof -
  let ?vs = "map (\<lambda>a. rdi (logits p) (base + int a)) [0..<nActions p]"
  have "\<And>a. a < nActions p \<Longrightarrow> rdi (logits p) (base + int a) \<noteq> None"
    using assms(1,2) by (auto simp: rdi_def rd_def nat_add_distrib)
  then have nn: "None \<notin> set ?vs" by force
  show ?thesis
  proof (cases "fold (\<lambda>v m. if gtMax v m then Some v else m) (map the ?vs) None")
    case None
    then have "map the ?vs = []" by (rule maxFold_None)
    then have "nActions p = 0" by simp
    then show ?thesis using nn None assms(3) by (simp add: getProbs_def Let_def)
  next
    case (Some m)
    then show ?thesis using nn assms(3) by (simp add: getProbs_def Let_def)
  qed
qed

lemma scoreFunction_in_range:
  assumes "0 \<le> base" "nat base + nActions p \<le> length (logits p)"
    and "base = (row * int (width p) + col) * int (nActions p)"
  shows "\<exists>sc. scoreFunction p row col action = Some sc \<and> length sc = nActions p"
proof -
  from getProbs_in_range [OF assms] obtain ps where
    "getProbs p row col = Some ps" "length ps = nActions p" by blast
  then show ?thesis by (simp add: scoreFunction_def Let_def)
qed

lemma addScore_loop_in:
  fixes coef :: real
  assumes b: "b + n \<le> length gr" and k: "k \<le> n"
  shows "foldE (\<lambda>a g. (let i = int b + int a
                         in if 0 \<le> i \<and> i < int (length g)
                            then Inr (g[nat i := g ! nat i + coef * sc ! a])
                            else Inr g)) [0..<k] gr
         = Inr (map (\<lambda>i. gr ! i + (if b \<le> i \<and> i < b + k then coef * sc ! (i - b) else 0))
                    [0..<length gr])"
  using k
proof (induction k)
  case 0
  have "gr = map (\<lambda>i. gr ! i + (if b \<le> i \<and> i < b + 0 then coef * sc ! (i - b) else 0))
                [0..<length gr]"
    by (intro nth_equalityI) auto
  then show ?case by simp
next
  case (Suc k)
  let ?prev = "map (\<lambda>i. gr ! i + (if b \<le> i \<and> i < b + k then coef * sc ! (i - b) else 0)) [0..<length gr]"
  have bk: "b + k < length gr" using Suc.prems b by simp
  have nat_eq: "nat (int b + int k) = b + k" by simp
  have "?prev[b + k := ?prev ! (b + k) + coef * sc ! k]
          = map (\<lambda>i. gr ! i + (if b \<le> i \<and> i < b + Suc k then coef * sc ! (i - b) else 0)) [0..<length gr]"
    using bk by (intro nth_equalityI) (auto simp: nth_list_update less_Suc_eq)
  then show ?case using Suc bk by (simp add: foldE_snoc nat_eq del: upt_Suc add: upt_Suc_append)
qed

lemma foldE_skip: "(\<And>x. x \<in> set xs \<Longrightarrow> f x s = Inr s) \<Longrightarrow> foldE f xs s = Inr s"
  by (induction xs) simp_all

lemma addScore_spec:
  fixes coef :: real
  assumes wf: "length (logits p) = height p * width p * nActions p"
    and len: "length gr = length (logits p)"
  shows "addScore p coef sa gr = Inr (map (\<lambda>i. gr ! i + coef * scoreAt p sa i) [0..<length gr])"
proof -
  obtain row col action where sa: "sa = (row, col, action)" by (cases sa) auto
  let ?n = "nActions p" and ?m = "row * int (width p) + col"
  let ?base = "?m * int ?n"
  let ?HW = "height p * width p"
  show ?thesis
  proof (cases "0 < ?n \<and> 0 \<le> ?m \<and> ?m < int ?HW")
    case True
    define b where "b = nat ?m * ?n"
    have base: "?base = int b" using True by (simp add: b_def)
    have "Suc (nat ?m) * ?n \<le> ?HW * ?n" using True by (intro mult_le_mono1) linarith
    then have top: "b + ?n \<le> length gr" using wf len by (simp add: b_def)
    have "0 \<le> ?base" "nat ?base + ?n \<le> length (logits p)" using base top len by simp_all
    from scoreFunction_in_range [OF this refl, of action] obtain sc where
      sc: "scoreFunction p row col action = Some sc" "length sc = ?n" by blast
    have "addScore p coef sa gr =
            foldE (\<lambda>a g. (let i = int b + int a
                         in if 0 \<le> i \<and> i < int (length g)
                            then Inr (g[nat i := g ! nat i + coef * sc ! a])
                            else Inr g)) [0..<?n] gr"
      unfolding addScore_def sa prod.case Let_def sc option.case base by (rule refl)
    also have "\<dots> = Inr (map (\<lambda>i. gr ! i + (if b \<le> i \<and> i < b + ?n then coef * sc ! (i - b) else 0))
                    [0..<length gr])"
      by (rule addScore_loop_in [OF top order_refl])
    also have "map (\<lambda>i. gr ! i + (if b \<le> i \<and> i < b + ?n then coef * sc ! (i - b) else 0)) [0..<length gr]
                 = map (\<lambda>i. gr ! i + coef * scoreAt p sa i) [0..<length gr]"
    proof (intro nth_equalityI)
      show "length (map (\<lambda>i. gr ! i + (if b \<le> i \<and> i < b + ?n then coef * sc ! (i - b) else 0)) [0..<length gr])
              = length (map (\<lambda>i. gr ! i + coef * scoreAt p sa i) [0..<length gr])" by simp
    next
      fix i assume "i < length (map (\<lambda>i. gr ! i + (if b \<le> i \<and> i < b + ?n then coef * sc ! (i - b) else 0)) [0..<length gr])"
      then have i: "i < length gr" by simp
      have "scoreAt p sa i = (if b \<le> i \<and> i < b + ?n then sc ! (i - b) else 0)"
        by (auto simp: scoreAt_def sa sc base Let_def nat_diff_distrib')
      then show "map (\<lambda>i. gr ! i + (if b \<le> i \<and> i < b + ?n then coef * sc ! (i - b) else 0)) [0..<length gr] ! i
                  = map (\<lambda>i. gr ! i + coef * scoreAt p sa i) [0..<length gr] ! i"
        using i by simp
    qed
    finally show ?thesis .
  next
    case False
    have out: "\<And>a. a < ?n \<Longrightarrow> \<not> (0 \<le> ?base + int a \<and> ?base + int a < int (length gr))"
    proof -
      fix a assume a: "a < ?n"
      then have n: "0 < ?n" by simp
      from False n consider "?m < 0" | "int ?HW \<le> ?m" by linarith
      then show "\<not> (0 \<le> ?base + int a \<and> ?base + int a < int (length gr))"
      proof cases
        case 1
        then have "?m \<le> - 1" by simp
        then have "?m * int ?n \<le> (- 1) * int ?n" by (intro mult_right_mono) simp_all
        then show ?thesis using a by simp
      next
        case 2
        then have "int ?HW * int ?n \<le> ?m * int ?n" by (intro mult_right_mono) simp_all
        then have "int (length gr) \<le> ?base" using wf len by simp
        then show ?thesis by simp
      qed
    qed
    have "addScore p coef sa gr = Inr gr"
      unfolding addScore_def sa Let_def prod.case
      using out len by (intro foldE_skip) (auto simp: Let_def)
    moreover have z: "\<And>i. i < length gr \<Longrightarrow> scoreAt p sa i = 0"
    proof -
      fix i assume i: "i < length gr"
      have "\<not> (?base \<le> int i \<and> int i < ?base + int ?n)"
      proof
        assume h: "?base \<le> int i \<and> int i < ?base + int ?n"
        then have "nat (int i - ?base) < ?n" by linarith
        from out [OF this] h i show False by simp
      qed
      then show "scoreAt p sa i = 0"
        by (auto simp: scoreAt_def sa Let_def split: option.splits)
    qed
    moreover have "gr = map (\<lambda>i. gr ! i + coef * scoreAt p sa i) [0..<length gr]"
      by (intro nth_equalityI) (auto simp: z)
    ultimately show ?thesis by simp
  qed
qed

lemma steps_spec:
  fixes coef :: real
  assumes wf: "length (logits p) = height p * width p * nActions p"
  shows "length gr = length (logits p) \<Longrightarrow>
         foldE (addScore p coef) sas gr =
           Inr (map (\<lambda>i. gr ! i + coef * (\<Sum>sa \<leftarrow> sas. scoreAt p sa i)) [0..<length gr])"
proof (induction sas arbitrary: gr)
  case Nil
  have "gr = map (\<lambda>i. gr ! i + coef * 0) [0..<length gr]" by (intro nth_equalityI) auto
  then show ?case by simp
next
  case (Cons sa sas)
  let ?g1 = "map (\<lambda>i. gr ! i + coef * scoreAt p sa i) [0..<length gr]"
  have l1: "length ?g1 = length (logits p)" using Cons.prems by simp
  have "foldE (addScore p coef) (sa # sas) gr = foldE (addScore p coef) sas ?g1"
    by (simp add: addScore_spec [OF wf Cons.prems])
  also have "\<dots> = Inr (map (\<lambda>i. ?g1 ! i + coef * (\<Sum>sa \<leftarrow> sas. scoreAt p sa i)) [0..<length ?g1])"
    by (rule Cons.IH [OF l1])
  also have "map (\<lambda>i. ?g1 ! i + coef * (\<Sum>sa \<leftarrow> sas. scoreAt p sa i)) [0..<length ?g1]
      = map (\<lambda>i. gr ! i + coef * (\<Sum>sa \<leftarrow> sa # sas. scoreAt p sa i)) [0..<length gr]"
    by (intro nth_equalityI) (auto simp: algebra_simps)
  finally show ?case .
qed

lemma accumulate_spec:
  assumes wf: "length (logits p) = height p * width p * nActions p"
  shows "length gr = length (logits p) \<Longrightarrow>
         accumulate p tcs gr = Inr (map (\<lambda>i. gr ! i + gradSum p tcs i) [0..<length gr])"
proof (induction tcs arbitrary: gr)
  case Nil
  have "gr = map (\<lambda>i. gr ! i + 0) [0..<length gr]" by (intro nth_equalityI) auto
  then show ?case by (simp add: accumulate_def gradSum_def)
next
  case (Cons tc tcs)
  obtain t coef where tc: "tc = (t, coef)" by (cases tc) auto
  let ?g1 = "map (\<lambda>i. gr ! i + coef * (\<Sum>sa \<leftarrow> stateActions t. scoreAt p sa i)) [0..<length gr]"
  have l1: "length ?g1 = length (logits p)" using Cons.prems by simp
  have "accumulate p (tc # tcs) gr = accumulate p tcs ?g1"
    by (simp add: accumulate_def tc steps_spec [OF wf Cons.prems])
  also have "\<dots> = Inr (map (\<lambda>i. ?g1 ! i + gradSum p tcs i) [0..<length ?g1])"
    by (rule Cons.IH [OF l1])
  also have "map (\<lambda>i. ?g1 ! i + gradSum p tcs i) [0..<length ?g1]
      = map (\<lambda>i. gr ! i + gradSum p (tc # tcs) i) [0..<length gr]"
    by (intro nth_equalityI) (auto simp: gradSum_def tc)
  finally show ?case .
qed

lemma accumulate_from_zero:
  assumes wf: "length (logits p) = height p * width p * nActions p"
  shows "accumulate p tcs (replicate (length (logits p)) 0) =
           Inr (map (gradSum p tcs) [0..<length (logits p)])"
proof -
  have "map (\<lambda>i. replicate (length (logits p)) 0 ! i + gradSum p tcs i) [0..<length (logits p)]
          = map (gradSum p tcs) [0..<length (logits p)]"
    by (intro nth_equalityI) auto
  then show ?thesis using accumulate_spec [OF wf, of "replicate (length (logits p)) 0" tcs] by simp
qed

lemma applyGrad_map:
  "applyGrad p lr (map f [0..<length (logits p)]) =
     p\<lparr>logits := map (\<lambda>i. logits p ! i + lr * f i) [0..<length (logits p)]\<rparr>"
  by (simp add: applyGrad_def)

lemma sampleBatch_length:
  "sampleBatch p env starts startProbs N maxSteps g = Inr (ts, g') \<Longrightarrow> length ts = N"
proof (induction N arbitrary: g ts)
  case 0
  then show ?case by simp
next
  case (Suc N)
  then show ?case by (auto split: prod.splits sum.splits)
qed

lemma sum_rewards: "sum_list (rewardsOf ts) = real (length (filter reachedGoal ts))"
  by (induction ts) (simp_all add: rewardsOf_def)

lemma corridorPolicy_built: "TabularSoftmaxPolicy 1 2 4 = corridorPolicy"
  by (simp add: TabularSoftmaxPolicy_def corridorPolicy_def numeral_eq_Suc)

lemmas update_defs = corridorPolicy_def chooseWeighted_def startAt_def rewardsOf_def accumulate_def addScore_def
  scoreFunction_def applyGrad_def clipLogits_def clipState_def maxAt_def clamp_def MAX_LOGIT_def

text \<open>
  Claim C2: when the batch \<^verbatim>\<open>maxrlUpdate\<close> samples has no successful trajectory, it
  returns 0 and the policy it leaves is the policy it was given: no gradient step and no
  \<^verbatim>\<open>clipLogits\<close>.
\<close>

theorem maxrlUpdate_zero_successes:
  assumes "sampleBatch p env starts startProbs N maxSteps g = Inr (ts, g')"
    and "\<forall>t \<in> set ts. \<not> reachedGoal t"
  shows "maxrlUpdate p env starts startProbs N lr maxSteps g = Inr (0, p, g')"
proof -
  have "filter reachedGoal ts = []" using assms(2) by (simp add: filter_empty_conv)
  then have "sum_list (rewardsOf ts) = 0" by (simp add: sum_rewards)
  then show ?thesis using assms(1) by (simp add: maxrlUpdate_def Let_def)
qed

lemma corridor_batch_fail:
  "sampleBatch corridorPolicy corridorEnv [(0, 0)] [1] 2 1 (constSource 0, 0) =
     Inr ([\<lparr>stateActions = [(0, 0, 0)], reachedGoal = False, path = [(0, 0), (0, 0)]\<rparr>,
           \<lparr>stateActions = [(0, 0, 0)], reachedGoal = False, path = [(0, 0), (0, 0)]\<rparr>],
          (constSource 0, 4))"
  by (simp add: eval_defs update_defs numeral_2_eq_2)

theorem maxrlUpdate_zero_successes_witness:
  "maxrlUpdate corridorPolicy corridorEnv [(0, 0)] [1] 2 (1 / 2) 1 (constSource 0, 0) =
     Inr (0, corridorPolicy, (constSource 0, 4))"
  by (rule maxrlUpdate_zero_successes [OF corridor_batch_fail]) simp

text \<open>
  Claim C1, as amended: for a policy whose logits array has the length the constructor
  gives it, when the batch has \<open>K > 0\<close> successes, \<^verbatim>\<open>maxrlUpdate\<close> adds,
  for every (state, action) visited in trajectory \<open>i\<close>, \<open>w_i * scoreFunction(state, action)\<close>
  into the gradient slots of the state, with \<open>w_i = reward_i / K - 1 / N\<close> and no further
  factor \<open>1 / N\<close>; the logits then change by \<open>lr\<close> times this gradient, and
  \<^verbatim>\<open>clipLogits\<close> is applied. \<open>gradSum\<close> is the accumulated gradient, slot by slot.
\<close>

theorem maxrlUpdate_gradient:
  assumes wf: "length (logits p) = height p * width p * nActions p"
    and batch: "sampleBatch p env starts startProbs N maxSteps g = Inr (ts, g')"
    and K: "K = real (length (filter reachedGoal ts))" and pos: "0 < K"
  shows "maxrlUpdate p env starts startProbs N lr maxSteps g =
           Inr (K,
                clipLogits (p\<lparr>logits :=
                  map (\<lambda>i. logits p ! i + lr *
                         gradSum p (zip ts (map (\<lambda>t. (if reachedGoal t then 1 else 0) / K - 1 / real N) ts)) i)
                      [0..<length (logits p)]\<rparr>),
                g')"
proof -
  have k: "sum_list (rewardsOf ts) = K" by (simp add: sum_rewards K)
  have w: "map (\<lambda>r. r / K - 1 / real N) (rewardsOf ts)
             = map (\<lambda>t. (if reachedGoal t then 1 else 0) / K - 1 / real N) ts"
    by (simp add: rewardsOf_def)
  show ?thesis
    using pos by (simp add: maxrlUpdate_def batch Let_def k w accumulate_from_zero [OF wf] applyGrad_map)
qed

lemma corridor_batch_mixed:
  "sampleBatch corridorPolicy corridorEnv [(0, 0)] [1] 2 1 (mixedSource, 0) =
     Inr ([\<lparr>stateActions = [(0, 0, 3)], reachedGoal = True, path = [(0, 0), (0, 1)]\<rparr>,
           \<lparr>stateActions = [(0, 0, 0)], reachedGoal = False, path = [(0, 0), (0, 0)]\<rparr>],
          (mixedSource, 4))"
  by (simp add: eval_defs update_defs mixedSource_def numeral_2_eq_2)

lemma corridor_fields:
  "width corridorPolicy = 2" "nActions corridorPolicy = 4" "height corridorPolicy = 1"
  "length (logits corridorPolicy) = 8"
  by (simp_all add: corridorPolicy_def)

lemma corridor_zeros:
  "replicate (length (logits corridorPolicy)) (0::real) = [0, 0, 0, 0, 0, 0, 0, 0]"
  by (simp add: corridorPolicy_def)

lemma corridor_applyGrad:
  "applyGrad corridorPolicy lr [g0, g1, g2, g3, g4, g5, g6, g7] =
     \<lparr>height = 1, width = 2, nActions = 4,
      logits = [lr * g0, lr * g1, lr * g2, lr * g3, lr * g4, lr * g5, lr * g6, lr * g7]\<rparr>"
  by (simp add: applyGrad_def corridorPolicy_def upt_rec)

lemma corridor_score_right:
  "scoreFunction corridorPolicy 0 0 3 = Some [- 1 / 4, - 1 / 4, - 1 / 4, 3 / 4]"
  by (simp add: scoreFunction_def getProbs_def rdi_def rd_def gtMax_def corridorPolicy_def
      upt_rec Let_def)

lemma corridor_score_up:
  "scoreFunction corridorPolicy 0 0 0 = Some [3 / 4, - 1 / 4, - 1 / 4, - 1 / 4]"
  by (simp add: scoreFunction_def getProbs_def rdi_def rd_def gtMax_def corridorPolicy_def
      upt_rec Let_def)

lemma corridor_add_right:
  "addScore corridorPolicy c (0, 0, 3) [g0, g1, g2, g3, g4, g5, g6, g7] =
     Inr [g0 + c * (- 1 / 4), g1 + c * (- 1 / 4), g2 + c * (- 1 / 4), g3 + c * (3 / 4), g4, g5, g6, g7]"
  by (simp add: addScore_def corridor_score_right corridor_fields upt_rec)

lemma corridor_add_up:
  "addScore corridorPolicy c (0, 0, 0) [g0, g1, g2, g3, g4, g5, g6, g7] =
     Inr [g0 + c * (3 / 4), g1 + c * (- 1 / 4), g2 + c * (- 1 / 4), g3 + c * (- 1 / 4), g4, g5, g6, g7]"
  by (simp add: addScore_def corridor_score_up corridor_fields upt_rec)

lemma corridor_clip_actual:
  "clipLogits \<lparr>height = 1, width = 2, nActions = 4, logits = [- 1 / 2, 0, 0, 1 / 2, 0, 0, 0, 0]\<rparr>
     = \<lparr>height = 1, width = 2, nActions = 4, logits = [- 1, - 1 / 2, - 1 / 2, 0, 0, 0, 0, 0]\<rparr>"
  by code_simp

lemma corridor_clip_claimed:
  "clipLogits \<lparr>height = 1, width = 2, nActions = 4, logits = [- 1 / 4, 0, 0, 1 / 4, 0, 0, 0, 0]\<rparr>
     = \<lparr>height = 1, width = 2, nActions = 4, logits = [- 1 / 2, - 1 / 4, - 1 / 4, 0, 0, 0, 0, 0]\<rparr>"
  by code_simp

lemma corridor_maxrl:
  "maxrlUpdate corridorPolicy corridorEnv [(0, 0)] [1] 2 1 1 (mixedSource, 0) =
     Inr (1, \<lparr>height = 1, width = 2, nActions = 4,
               logits = [- 1, - 1 / 2, - 1 / 2, 0, 0, 0, 0, 0]\<rparr>, (mixedSource, 4))"
proof -
  have "maxrlUpdate corridorPolicy corridorEnv [(0, 0)] [1] 2 1 1 (mixedSource, 0) =
     Inr (1, clipLogits \<lparr>height = 1, width = 2, nActions = 4,
               logits = [- 1 / 2, 0, 0, 1 / 2, 0, 0, 0, 0]\<rparr>, (mixedSource, 4))"
    unfolding maxrlUpdate_def corridor_batch_mixed
    by (simp add: rewardsOf_def accumulate_def corridor_zeros corridor_add_right corridor_add_up
        corridor_applyGrad)
  then show ?thesis by (simp only: corridor_clip_actual)
qed

lemma corridor_maxrl_claimed:
  "maxrlUpdateClaimed corridorPolicy corridorEnv [(0, 0)] [1] 2 1 1 (mixedSource, 0) =
     Inr (1, \<lparr>height = 1, width = 2, nActions = 4,
               logits = [- 1 / 2, - 1 / 4, - 1 / 4, 0, 0, 0, 0, 0]\<rparr>, (mixedSource, 4))"
proof -
  have "maxrlUpdateClaimed corridorPolicy corridorEnv [(0, 0)] [1] 2 1 1 (mixedSource, 0) =
     Inr (1, clipLogits \<lparr>height = 1, width = 2, nActions = 4,
               logits = [- 1 / 4, 0, 0, 1 / 4, 0, 0, 0, 0]\<rparr>, (mixedSource, 4))"
    unfolding maxrlUpdateClaimed_def corridor_batch_mixed
    by (simp add: rewardsOf_def accumulate_def corridor_zeros corridor_add_right corridor_add_up
        corridor_applyGrad)
  then show ?thesis by (simp only: corridor_clip_claimed)
qed

text \<open>
  Claim C1 as stated, with the factor \<open>1 / N\<close>, fails: on the corridor, with a batch of one
  success and one failure, the update of the source and the update the claim describes
  leave different logits.
\<close>

theorem maxrlUpdate_claimed_counterexample:
  "maxrlUpdate corridorPolicy corridorEnv [(0, 0)] [1] 2 1 1 (mixedSource, 0) =
     Inr (1, \<lparr>height = 1, width = 2, nActions = 4,
               logits = [- 1, - 1 / 2, - 1 / 2, 0, 0, 0, 0, 0]\<rparr>, (mixedSource, 4))
   \<and> maxrlUpdateClaimed corridorPolicy corridorEnv [(0, 0)] [1] 2 1 1 (mixedSource, 0) =
     Inr (1, \<lparr>height = 1, width = 2, nActions = 4,
               logits = [- 1 / 2, - 1 / 4, - 1 / 4, 0, 0, 0, 0, 0]\<rparr>, (mixedSource, 4))
   \<and> maxrlUpdate corridorPolicy corridorEnv [(0, 0)] [1] 2 1 1 (mixedSource, 0) \<noteq>
     maxrlUpdateClaimed corridorPolicy corridorEnv [(0, 0)] [1] 2 1 1 (mixedSource, 0)"
  unfolding corridor_maxrl corridor_maxrl_claimed by simp

lemma corridor_wf:
  "length (logits corridorPolicy) = height corridorPolicy * width corridorPolicy * nActions corridorPolicy"
  by (simp add: corridorPolicy_def)

theorem maxrlUpdate_gradient_witness:
  "maxrlUpdate corridorPolicy corridorEnv [(0, 0)] [1] 2 1 1 (mixedSource, 0) =
     Inr (1,
          clipLogits (corridorPolicy\<lparr>logits :=
            map (\<lambda>i. logits corridorPolicy ! i + 1 *
                   gradSum corridorPolicy
                     (zip [\<lparr>stateActions = [(0, 0, 3)], reachedGoal = True, path = [(0, 0), (0, 1)]\<rparr>,
                           \<lparr>stateActions = [(0, 0, 0)], reachedGoal = False, path = [(0, 0), (0, 0)]\<rparr>]
                        (map (\<lambda>t. (if reachedGoal t then 1 else 0) / 1 - 1 / real 2)
                          [\<lparr>stateActions = [(0, 0, 3)], reachedGoal = True, path = [(0, 0), (0, 1)]\<rparr>,
                           \<lparr>stateActions = [(0, 0, 0)], reachedGoal = False, path = [(0, 0), (0, 0)]\<rparr>])) i)
                [0..<length (logits corridorPolicy)]\<rparr>),
          (mixedSource, 4))"
  by (rule maxrlUpdate_gradient [OF corridor_wf corridor_batch_mixed]) simp_all

lemma zero_coefs:
  assumes "length ts = N"
    and "(\<forall>t \<in> set ts. reachedGoal t) \<or> (\<forall>t \<in> set ts. \<not> reachedGoal t)"
  shows "map (\<lambda>r. (1 / real N) * (r - sum_list (rewardsOf ts) / real N)) (rewardsOf ts)
           = map (\<lambda>t. 0) ts"
  using assms(2)
proof
  assume all: "\<forall>t \<in> set ts. reachedGoal t"
  then have f: "filter reachedGoal ts = ts" by (simp add: filter_id_conv)
  have K: "sum_list (rewardsOf ts) = real N" by (simp add: sum_rewards f assms(1))
  show ?thesis
  proof (cases "N = 0")
    case True
    then show ?thesis using assms(1) by (simp add: rewardsOf_def)
  next
    case False
    have r1: "rewardsOf ts = map (\<lambda>t. 1) ts" using all by (simp add: rewardsOf_def)
    show ?thesis unfolding K unfolding r1 using False by simp
  qed
next
  assume none: "\<forall>t \<in> set ts. \<not> reachedGoal t"
  then have "filter reachedGoal ts = []" by (simp add: filter_empty_conv)
  then have "sum_list (rewardsOf ts) = 0" by (simp add: sum_rewards)
  then show ?thesis using none by (simp add: rewardsOf_def)
qed

lemma gradSum_zero: "gradSum p (zip ts (map (\<lambda>t. 0) ts)) i = 0"
proof -
  have "\<And>us. gradSum p (zip ts (map (\<lambda>t. 0) us)) i = 0"
  proof (induction ts)
    case Nil
    then show ?case by (simp add: gradSum_def)
  next
    case (Cons t ts)
    show ?case
    proof (cases us)
      case Nil
      then show ?thesis by (simp add: gradSum_def)
    next
      case (Cons u us')
      then show ?thesis using Cons.IH [of us'] by (simp add: gradSum_def)
    qed
  qed
  then show ?thesis .
qed

text \<open>
  Claim C3, as amended: for a policy with finite logits in an array of the length the
  constructor gives it and a finite learning rate, when all trajectories of the batch
  reach the goal, or none does, the gradient \<^verbatim>\<open>reinforceUpdate\<close> accumulates is zero and
  the policy it leaves is \<^verbatim>\<open>clipLogits\<close> of the policy it was given; so the logits are
  unchanged whenever \<^verbatim>\<open>clipLogits\<close> leaves the given policy unchanged.
\<close>

theorem reinforceUpdate_no_signal:
  assumes wf: "length (logits p) = height p * width p * nActions p"
    and batch: "sampleBatch p env starts startProbs N maxSteps g = Inr (ts, g')"
    and uni: "(\<forall>t \<in> set ts. reachedGoal t) \<or> (\<forall>t \<in> set ts. \<not> reachedGoal t)"
  shows "accumulate p
           (zip ts (map (\<lambda>r. (1 / real N) * (r - sum_list (rewardsOf ts) / real N)) (rewardsOf ts)))
           (replicate (length (logits p)) 0)
          = Inr (replicate (length (logits p)) 0)
         \<and> reinforceUpdate p env starts startProbs N lr maxSteps g =
           Inr (real (length (filter reachedGoal ts)), clipLogits p, g')
         \<and> (clipLogits p = p \<longrightarrow>
             reinforceUpdate p env starts startProbs N lr maxSteps g =
               Inr (real (length (filter reachedGoal ts)), p, g'))"
proof -
  have len: "length ts = N" using batch by (rule sampleBatch_length)
  have same: "p\<lparr>logits := map ((!) (logits p)) [0..<length (logits p)]\<rparr> = p"
    by (simp add: map_nth)
  have acc: "accumulate p
                (zip ts (map (\<lambda>r. (1 / real N) * (r - sum_list (rewardsOf ts) / real N)) (rewardsOf ts)))
                (replicate (length (logits p)) 0)
              = Inr (map (\<lambda>i. 0) [0..<length (logits p)])"
    unfolding zero_coefs [OF len uni] accumulate_from_zero [OF wf] by (simp add: gradSum_zero)
  have "reinforceUpdate p env starts startProbs N lr maxSteps g =
           Inr (real (length (filter reachedGoal ts)), clipLogits p, g')"
    unfolding reinforceUpdate_def batch sum.case prod.case Let_def acc
    by (simp add: applyGrad_map same sum_rewards)
  moreover have "map (\<lambda>i. 0::real) [0..<length (logits p)] = replicate (length (logits p)) 0"
    by (simp add: map_replicate_const)
  ultimately show ?thesis using acc by simp
qed

lemma corridor_clip_fixed: "clipLogits corridorPolicy = corridorPolicy"
  unfolding corridorPolicy_def by code_simp

theorem reinforceUpdate_no_signal_witness:
  "reinforceUpdate corridorPolicy corridorEnv [(0, 0)] [1] 2 (1 / 2) 1 (constSource 0, 0) =
     Inr (0, corridorPolicy, (constSource 0, 4))"
proof -
  have uni: "(\<forall>t \<in> set [\<lparr>stateActions = [(0, 0, 0)], reachedGoal = False, path = [(0, 0), (0, 0)]\<rparr>,
           \<lparr>stateActions = [(0, 0, 0)], reachedGoal = False, path = [(0, 0), (0, 0)]\<rparr>]. reachedGoal t)
      \<or> (\<forall>t \<in> set [\<lparr>stateActions = [(0, 0, 0)], reachedGoal = False, path = [(0, 0), (0, 0)]\<rparr>,
           \<lparr>stateActions = [(0, 0, 0)], reachedGoal = False, path = [(0, 0), (0, 0)]\<rparr>]. \<not> reachedGoal t)"
    by simp
  show ?thesis
    using reinforceUpdate_no_signal [OF corridor_wf corridor_batch_fail uni, of "1 / 2"]
    by (simp add: corridor_clip_fixed)
qed

lemma cellEnv_built: "GridWorld [[Some 0]] (0, 0) (0, 0) = Inr cellEnv"
  by (simp add: GridWorld_def cellEnv_def)

lemma cell_batch:
  "sampleBatch demoPolicy cellEnv [(0, 0)] [1] 1 1 (constSource 0, 0) =
     Inr ([\<lparr>stateActions = [], reachedGoal = True, path = [(0, 0)]\<rparr>], (constSource 0, 1))"
  by (simp add: rollout_def chooseWeighted_def startAt_def mathRandom_def cellEnv_def
      constSource_def Let_def)

lemma cell_reinforce:
  "reinforceUpdate demoPolicy cellEnv [(0, 0)] [1] 1 (1 / 2) 1 (constSource 0, 0) =
     Inr (1, \<lparr>height = 1, width = 1, nActions = 4, logits = [- 2, - 1, 0, - 20]\<rparr>,
          (constSource 0, 1))"
proof -
  have "applyGrad demoPolicy (1 / 2) [0, 0, 0, 0] = demoPolicy"
    by (simp add: applyGrad_def demoPolicy_def upt_rec)
  moreover have "clipLogits demoPolicy =
      \<lparr>height = 1, width = 1, nActions = 4, logits = [- 2, - 1, 0, - 20]\<rparr>"
    unfolding demoPolicy_def by code_simp
  moreover have "replicate (length (logits demoPolicy)) (0::real) = [0, 0, 0, 0]"
    by (simp add: demoPolicy_def)
  ultimately show ?thesis
    unfolding reinforceUpdate_def cell_batch
    by (simp add: rewardsOf_def accumulate_def)
qed

text \<open>
  Claim C3 as stated, for every policy, fails: a policy whose logits are not clipped comes
  back clipped from a batch in which every trajectory succeeds.
\<close>

theorem reinforceUpdate_unclipped_counterexample:
  "sampleBatch demoPolicy cellEnv [(0, 0)] [1] 1 1 (constSource 0, 0) =
     Inr ([\<lparr>stateActions = [], reachedGoal = True, path = [(0, 0)]\<rparr>], (constSource 0, 1))
   \<and> reinforceUpdate demoPolicy cellEnv [(0, 0)] [1] 1 (1 / 2) 1 (constSource 0, 0) =
     Inr (1, \<lparr>height = 1, width = 1, nActions = 4, logits = [- 2, - 1, 0, - 20]\<rparr>,
          (constSource 0, 1))
   \<and> logits demoPolicy = [1, 2, 3, - 30]"
  unfolding cell_batch cell_reinforce by (simp add: demoPolicy_def)

section \<open>Correctness of the shortest-path search\<close>

lemma fixture_bfs:
  "bfsShortestPath fixtureMaze (1, 1) (3, 3) = Some (Inr (Some (4, [(1,1),(2,1),(3,1),(3,2),(3,3)])))"
  by code_simp

lemma routeFrom_snoc:
  "routeFrom g u (vs @ [x]) = (routeFrom g u vs \<and> adjacent (last (u # vs)) x \<and> isOpen g x)"
  by (induction vs arbitrary: u) auto

lemma reach_0: "reach g s 0 v = (v = s)"
  by (auto simp: reach_def route_def)

lemma reach_Suc:
  "reach g s (Suc n) v = (\<exists>u. reach g s n u \<and> adjacent u v \<and> isOpen g v)"
proof
  assume "reach g s (Suc n) v"
  then obtain vs where vs: "length vs = Suc n" "routeFrom g s vs" "last (s # vs) = v"
    by (auto simp: reach_def route_def)
  then obtain ws x where sp: "vs = ws @ [x]" by (cases vs rule: rev_cases) auto
  then have "routeFrom g s ws" "adjacent (last (s # ws)) x" "isOpen g x" "x = v" "length ws = n"
    using vs by (auto simp: routeFrom_snoc)
  then show "\<exists>u. reach g s n u \<and> adjacent u v \<and> isOpen g v"
    unfolding reach_def route_def by blast
next
  assume "\<exists>u. reach g s n u \<and> adjacent u v \<and> isOpen g v"
  then obtain u ws where "length ws = n" "routeFrom g s ws" "last (s # ws) = u"
    "adjacent u v" "isOpen g v" by (auto simp: reach_def route_def)
  then have "length (ws @ [v]) = Suc n \<and> route g s v (ws @ [v])"
    by (simp add: route_def routeFrom_snoc)
  then show "reach g s (Suc n) v" unfolding reach_def by blast
qed

lemma trail_length [simp]: "length (trail par v n) = Suc n"
  by (induction n arbitrary: v) auto

lemma trail_nonempty [simp]: "trail par v n \<noteq> []"
  by (cases n) auto

lemma trail_hd [simp]: "hd (trail par v n) = v"
  by (cases n) auto

lemma trail_upd:
  "x \<notin> set (trail par v n) \<Longrightarrow> trail (par(x := u)) v n = trail par v n"
  by (induction n arbitrary: v) auto

lemma pathBack_chain:
  assumes "\<forall>v \<in> set (trail par v0 d). 0 \<le> fst v \<and> fst v < int h \<and> 0 \<le> snd v \<and> snd v < int w"
    and "par (last (trail par v0 d)) = (- 1, - 1)"
  shows "pathBack h w par (fst v0) (snd v0) acc = Some (Inr (acc @ trail par v0 d))"
  using assms
proof (induction d arbitrary: v0 acc)
  case 0
  then have b: "0 \<le> fst v0 \<and> fst v0 < int h \<and> 0 \<le> snd v0 \<and> snd v0 < int w" and p: "par v0 = (- 1, - 1)"
    by auto
  have "pathBack h w par (- 1) (- 1) (acc @ [v0]) = Some (Inr (acc @ [v0]))"
    by (subst pathBack.simps) simp
  then show ?case using b p by (subst pathBack.simps) simp
next
  case (Suc d)
  then have b: "0 \<le> fst v0 \<and> fst v0 < int h \<and> 0 \<le> snd v0 \<and> snd v0 < int w" by auto
  have "pathBack h w par (fst (par v0)) (snd (par v0)) (acc @ [v0])
          = Some (Inr ((acc @ [v0]) @ trail par (par v0) d))"
    using Suc.prems by (intro Suc.IH) auto
  then show ?case using b by (subst pathBack.simps) (simp add: case_prod_beta)
qed

lemma invClosedD: "invClosed g k vis q \<Longrightarrow> i < k \<Longrightarrow> edge g (cellOf (q ! i)) x \<Longrightarrow> x \<in> vis"
  unfolding invClosed_def by blast

lemma invQ_head: "invQ g s vis q \<Longrightarrow> q ! 0 = (fst s, snd s, 0)"
  by (simp add: invQ_def)

lemma invQ_start: "invQ g s vis q \<Longrightarrow> s \<in> vis"
proof -
  assume Q: "invQ g s vis q"
  then have "q \<noteq> []" by (simp add: invQ_def)
  then have "q ! 0 \<in> set q" by simp
  then have "cellOf (q ! 0) \<in> cellOf ` set q" by (rule imageI)
  then show "s \<in> vis" using Q by (simp add: invQ_def cellOf_def)
qed

lemma invQ_vis: "invQ g s vis q \<Longrightarrow> vis = cellOf ` set q"
  by (simp add: invQ_def)

lemma invMinD: "invMin g s q \<Longrightarrow> e \<in> set q \<Longrightarrow> reach g s n (cellOf e) \<Longrightarrow> dstOf e \<le> n"
  unfolding invMin_def by blast

lemma invSorted_mono: "invSorted k q \<Longrightarrow> i \<le> j \<Longrightarrow> j < length q \<Longrightarrow> dstOf (q ! i) \<le> dstOf (q ! j)"
  unfolding invSorted_def by blast

lemma invSorted_bound:
  "invSorted k q \<Longrightarrow> k < length q \<Longrightarrow> j < length q \<Longrightarrow> dstOf (q ! j) \<le> dstOf (q ! k) + 1"
  unfolding invSorted_def by blast

lemma frontier:
  assumes Q: "invQ g s vis q" and S: "invSorted k q" and M: "invMin g s q"
    and C: "invClosed g k vis q" and k: "k < length q"
  shows "reach g s n x \<Longrightarrow> n < dstOf (q ! k) \<Longrightarrow> \<exists>i < k. cellOf (q ! i) = x"
proof (induction n arbitrary: x)
  case 0
  then have x: "x = s" by (simp add: reach_0)
  have q0: "q ! 0 = (fst s, snd s, 0)" using Q by (simp add: invQ_def)
  then have "dstOf (q ! 0) = 0" "cellOf (q ! 0) = s" by (simp_all add: dstOf_def cellOf_def)
  moreover from this 0(2) have "k \<noteq> 0" by (metis less_numeral_extra(3))
  ultimately show ?case using x by auto
next
  case (Suc n)
  from Suc.prems(1) obtain u where u: "reach g s n u" "adjacent u x" "isOpen g x"
    by (auto simp: reach_Suc)
  from Suc.IH [OF u(1)] Suc.prems(2) obtain i where i: "i < k" "cellOf (q ! i) = u" by auto
  have "edge g (cellOf (q ! i)) x" using u i by (simp add: edge_def)
  from invClosedD [OF C i(1) this] have "x \<in> vis" .
  then have "x \<in> cellOf ` set q" using Q by (simp add: invQ_def)
  then obtain j where j: "j < length q" "cellOf (q ! j) = x"
    by (auto simp: in_set_conv_nth)
  have "dstOf (q ! j) \<le> Suc n" using invMinD [OF M, of "q ! j" "Suc n"] j Suc.prems(1) by simp
  then have lt: "dstOf (q ! j) < dstOf (q ! k)" using Suc.prems(2) by simp
  have "j < k"
  proof (rule ccontr)
    assume "\<not> j < k"
    then have "k \<le> j" by simp
    then have "dstOf (q ! k) \<le> dstOf (q ! j)" using S j(1) by (intro invSorted_mono)
    then show False using lt by simp
  qed
  then show ?case using j(2) by blast
qed

lemma push_min:
  assumes Q: "invQ g s vis q" and S: "invSorted k q" and M: "invMin g s q"
    and C: "invClosed g k vis q" and k: "k < length q"
    and e: "edge g (cellOf (q ! k)) x" and x: "x \<notin> vis" and r: "reach g s n x"
  shows "dstOf (q ! k) + 1 \<le> n"
proof (cases n)
  case 0
  then have "x = s" using r by (simp add: reach_0)
  moreover have "s \<in> vis" using Q by (rule invQ_start)
  ultimately show ?thesis using x by simp
next
  case (Suc m)
  then obtain u where u: "reach g s m u" "adjacent u x" "isOpen g x"
    using r by (auto simp: reach_Suc)
  have "\<not> m < dstOf (q ! k)"
  proof
    assume "m < dstOf (q ! k)"
    from frontier [OF Q S M C k u(1) this] obtain i where i: "i < k" "cellOf (q ! i) = u" by auto
    then have "edge g (cellOf (q ! i)) x" using u by (simp add: edge_def)
    from invClosedD [OF C i(1) this] have "x \<in> vis" .
    then show False using x by simp
  qed
  then show ?thesis using Suc by simp
qed

lemma cellOf_simp [simp]: "cellOf (a, b, d) = (a, b)"
  by (simp add: cellOf_def)

lemma dstOf_simp [simp]: "dstOf (a, b, d) = d"
  by (simp add: dstOf_def)

lemma push_invQ:
  assumes Q: "invQ g s vis q" and o: "isOpen g x" and x: "x \<notin> vis"
  shows "invQ g s (insert x vis) (q @ [(fst x, snd x, d)])"
proof -
  have ne: "q \<noteq> []" and q0: "q ! 0 = (fst s, snd s, 0)" and v: "vis = cellOf ` set q"
    and di: "distinct (map cellOf q)" and op: "\<forall>v \<in> vis. v = s \<or> isOpen g v"
    using Q by (simp_all add: invQ_def)
  have "(q @ [(fst x, snd x, d)]) ! 0 = (fst s, snd s, 0)" using ne q0 by (simp add: nth_append)
  moreover have "insert x vis = cellOf ` set (q @ [(fst x, snd x, d)])" using v by simp
  moreover have "distinct (map cellOf (q @ [(fst x, snd x, d)]))" using di x v by simp
  moreover have "\<forall>v \<in> insert x vis. v = s \<or> isOpen g v" using op o by simp
  ultimately show ?thesis unfolding invQ_def by simp
qed

lemma push_invSorted:
  assumes S: "invSorted k q" and k: "k < length q" and d: "dstOf (q ! k) = d"
  shows "invSorted k (q @ [(a, b, d + 1)])"
proof -
  let ?q = "q @ [(a, b, d + 1)]"
  have bound: "\<And>j. j < length ?q \<Longrightarrow> dstOf (?q ! j) \<le> d + 1"
  proof -
    fix j assume "j < length ?q"
    then consider "j < length q" | "j = length q" by fastforce
    then show "dstOf (?q ! j) \<le> d + 1"
    proof cases
      case 1
      then show ?thesis using invSorted_bound [OF S k 1] d by (simp add: nth_append)
    next
      case 2
      then show ?thesis by simp
    qed
  qed
  have mono: "\<And>i j. i \<le> j \<Longrightarrow> j < length ?q \<Longrightarrow> dstOf (?q ! i) \<le> dstOf (?q ! j)"
  proof -
    fix i j assume ij: "i \<le> j" "j < length ?q"
    then consider "j < length q" | "j = length q" by fastforce
    then show "dstOf (?q ! i) \<le> dstOf (?q ! j)"
    proof cases
      case 1
      then show ?thesis using invSorted_mono [OF S ij(1) 1] ij(1) by (simp add: nth_append)
    next
      case 2
      then have "dstOf (?q ! j) = d + 1" by simp
      moreover have "dstOf (?q ! i) \<le> d + 1" using bound ij by simp
      ultimately show ?thesis by simp
    qed
  qed
  have "?q ! k = q ! k" using k by (simp add: nth_append)
  then have "\<forall>j < length ?q. dstOf (?q ! j) \<le> dstOf (?q ! k) + 1" using bound d by simp
  then show ?thesis unfolding invSorted_def using mono by blast
qed

lemma chain_grow:
  assumes c: "chain g s par vis e" and x: "x \<notin> vis"
  shows "chain g s (par(x := u)) (insert x vis) e"
proof -
  have "x \<notin> set (trail par (cellOf e) (dstOf e))" using c x by (auto simp: chain_def)
  then have "trail (par(x := u)) (cellOf e) (dstOf e) = trail par (cellOf e) (dstOf e)"
    by (rule trail_upd)
  then show ?thesis using c by (auto simp: chain_def)
qed

lemma chain_new:
  assumes c: "chain g s par vis (r, c, d)" and x: "x \<notin> vis" and e: "edge g (r, c) x"
  shows "chain g s (par(x := (r, c))) (insert x vis) (fst x, snd x, d + 1)"
proof -
  let ?T = "trail par (r, c) d"
  have sub: "set ?T \<subseteq> vis" and la: "last ?T = s" and ro: "routeFrom g s (tl (rev ?T))"
    using c by (simp_all add: chain_def)
  have "x \<notin> set ?T" using sub x by auto
  then have T': "trail (par(x := (r, c))) x (Suc d) = x # ?T"
    by (simp add: trail_upd)
  have revT: "rev ?T = s # tl (rev ?T)"
    using la by (cases "rev ?T") (auto simp: last_rev [symmetric] simp del: last_rev)
  have "last (rev ?T) = last (s # tl (rev ?T))" using revT by (rule arg_cong)
  moreover have "last (rev ?T) = hd ?T" by (simp add: last_rev)
  ultimately have l: "last (s # tl (rev ?T)) = (r, c)" by simp
  have "tl (rev (x # ?T)) = tl (rev ?T) @ [x]" by (cases "rev ?T") auto
  moreover have "routeFrom g s (tl (rev ?T) @ [x])"
    using ro e l by (simp add: routeFrom_snoc edge_def)
  ultimately have "routeFrom g s (tl (rev (x # ?T)))" by simp
  moreover have "set (x # ?T) \<subseteq> insert x vis" using sub by auto
  moreover have "last (x # ?T) = s" using la by simp
  ultimately show ?thesis unfolding chain_def using T' by simp
qed

lemma push_inv:
  assumes I: "bfsInv g s k vis par q" and k: "k < length q" and qk: "q ! k = (r, c, d)"
    and e: "edge g (r, c) x" and x: "x \<notin> vis"
  shows "bfsInv g s k (insert x vis) (par(x := (r, c))) (q @ [(fst x, snd x, d + 1)])"
proof -
  let ?q = "q @ [(fst x, snd x, d + 1)]"
  from I have Q: "invQ g s vis q" and S: "invSorted k q" and Ch: "invChain g s par vis q"
    and M: "invMin g s q" and C: "invClosed g k vis q"
    by (simp_all add: bfsInv_def)
  have qkin: "(r, c, d) \<in> set q" using k qk by (metis nth_mem)
  have o: "isOpen g x" using e by (simp add: edge_def)
  have Q': "invQ g s (insert x vis) ?q" using Q o x by (rule push_invQ)
  have "dstOf (q ! k) = d" by (simp add: qk)
  then have S': "invSorted k ?q" using S k by (intro push_invSorted)
  have "s \<in> vis" using Q by (rule invQ_start)
  then have xs: "x \<noteq> s" using x by auto
  have par_s: "par s = (- 1, - 1)" and chains: "\<And>e. e \<in> set q \<Longrightarrow> chain g s par vis e"
    using Ch by (simp_all add: invChain_def)
  have "chain g s (par(x := (r, c))) (insert x vis) (fst x, snd x, d + 1)"
    using chains [OF qkin] x e by (rule chain_new)
  moreover have "\<And>e. e \<in> set q \<Longrightarrow> chain g s (par(x := (r, c))) (insert x vis) e"
    using chains x by (intro chain_grow)
  ultimately have Ch': "invChain g s (par(x := (r, c))) (insert x vis) ?q"
    using par_s xs by (auto simp: invChain_def)
  have ek: "edge g (cellOf (q ! k)) x" using e by (simp add: qk)
  have "\<And>n. reach g s n x \<Longrightarrow> d + 1 \<le> n"
    using push_min [OF Q S M C k ek x] by (simp add: qk)
  then have M': "invMin g s ?q" using M by (auto simp: invMin_def)
  have C': "invClosed g k (insert x vis) ?q"
    unfolding invClosed_def
  proof (intro allI impI)
    fix i y assume i: "i < k" and ed: "edge g (cellOf (?q ! i)) y"
    have "?q ! i = q ! i" using i k by (simp add: nth_append)
    then have "y \<in> vis" using invClosedD [OF C i] ed by simp
    then show "y \<in> insert x vis" by simp
  qed
  show ?thesis unfolding bfsInv_def using Q' S' Ch' M' C' k by simp
qed

lemma expandDir_eq:
  assumes "h = length g" "w = length (g ! 0)"
  shows "expandDir g h w r c d dl (vis, par, q) =
           (if isOpen g (r + fst dl, c + snd dl) \<and> (r + fst dl, c + snd dl) \<notin> vis
            then (insert (r + fst dl, c + snd dl) vis, par((r + fst dl, c + snd dl) := (r, c)),
                  q @ [(r + fst dl, c + snd dl, d + 1)])
            else (vis, par, q))"
  using assms by (cases dl) (auto simp: expandDir_def isOpen_def Let_def)

lemma adjacent_delta: "dl \<in> set ACTION_DELTAS \<Longrightarrow> adjacent (r, c) (r + fst dl, c + snd dl)"
  unfolding adjacent_def by force

lemma adjacent_cases:
  "adjacent (r, c) x \<Longrightarrow> \<exists>dl \<in> set ACTION_DELTAS. x = (r + fst dl, c + snd dl)"
  unfolding adjacent_def by force

lemma expand_inv:
  assumes hw: "h = length g" "w = length (g ! 0)"
  shows "bfsInv g s k vis par q \<Longrightarrow> k < length q \<Longrightarrow> q ! k = (r, c, d) \<Longrightarrow>
         set ds \<subseteq> set ACTION_DELTAS \<Longrightarrow>
         fold (expandDir g h w r c d) ds (vis, par, q) = (vis', par', q') \<Longrightarrow>
         bfsInv g s k vis' par' q' \<and> vis \<subseteq> vis' \<and> (\<exists>new. q' = q @ new) \<and>
         (\<forall>dl \<in> set ds. isOpen g (r + fst dl, c + snd dl) \<longrightarrow> (r + fst dl, c + snd dl) \<in> vis')"
proof (induction ds arbitrary: vis par q)
  case Nil
  then show ?case by simp
next
  case (Cons dl ds)
  let ?x = "(r + fst dl, c + snd dl)"
  have dl: "dl \<in> set ACTION_DELTAS" and ds: "set ds \<subseteq> set ACTION_DELTAS"
    using Cons.prems(4) by auto
  show ?case
  proof (cases "isOpen g ?x \<and> ?x \<notin> vis")
    case True
    let ?vis1 = "insert ?x vis" and ?par1 = "par(?x := (r, c))" and ?q1 = "q @ [(r + fst dl, c + snd dl, d + 1)]"
    have st: "expandDir g h w r c d dl (vis, par, q) = (?vis1, ?par1, ?q1)"
      using True by (simp add: expandDir_eq [OF hw])
    have "edge g (r, c) ?x" using True dl by (simp add: edge_def adjacent_delta)
    then have I1: "bfsInv g s k ?vis1 ?par1 ?q1"
      using push_inv [OF Cons.prems(1,2,3), of ?x] True by simp
    have k1: "k < length ?q1" using Cons.prems(2) by simp
    have qk1: "?q1 ! k = (r, c, d)" using Cons.prems(2,3) by (simp add: nth_append)
    have f: "fold (expandDir g h w r c d) ds (?vis1, ?par1, ?q1) = (vis', par', q')"
      using Cons.prems(5) st by simp
    from Cons.IH [OF I1 k1 qk1 ds f] show ?thesis by auto
  next
    case False
    have st: "expandDir g h w r c d dl (vis, par, q) = (vis, par, q)"
      using False by (auto simp: expandDir_eq [OF hw])
    then have f: "fold (expandDir g h w r c d) ds (vis, par, q) = (vis', par', q')"
      using Cons.prems(5) by simp
    from Cons.IH [OF Cons.prems(1,2,3) ds f] False show ?thesis by auto
  qed
qed

lemma advance_inv:
  assumes I: "bfsInv g s k vis par q" and k: "k < length q"
    and cl: "\<And>x. edge g (cellOf (q ! k)) x \<Longrightarrow> x \<in> vis"
  shows "bfsInv g s (Suc k) vis par q"
proof -
  from I have Q: "invQ g s vis q" and S: "invSorted k q" and Ch: "invChain g s par vis q"
    and M: "invMin g s q" and C: "invClosed g k vis q"
    by (simp_all add: bfsInv_def)
  have S': "invSorted (Suc k) q"
    unfolding invSorted_def
  proof (intro conjI allI impI)
    fix i j assume "i \<le> j \<and> j < length q"
    then show "dstOf (q ! i) \<le> dstOf (q ! j)" using invSorted_mono [OF S] by blast
  next
    fix j assume sk: "Suc k < length q" and j: "j < length q"
    have "dstOf (q ! j) \<le> dstOf (q ! k) + 1" using S k j by (rule invSorted_bound)
    moreover have "dstOf (q ! k) \<le> dstOf (q ! Suc k)" using S sk by (intro invSorted_mono) simp_all
    ultimately show "dstOf (q ! j) \<le> dstOf (q ! Suc k) + 1" by simp
  qed
  have C': "invClosed g (Suc k) vis q"
    unfolding invClosed_def
  proof (intro allI impI)
    fix i x assume i: "i < Suc k" and e: "edge g (cellOf (q ! i)) x"
    show "x \<in> vis"
    proof (cases "i = k")
      case True
      then show ?thesis using cl e by simp
    next
      case False
      then have "i < k" using i by simp
      from invClosedD [OF C this e] show ?thesis .
    qed
  qed
  show ?thesis unfolding bfsInv_def using Q S' Ch M C' k by simp
qed

lemma exhausted:
  assumes I: "bfsInv g s (length q) vis par q"
  shows "reach g s n x \<Longrightarrow> x \<in> vis"
proof (induction n arbitrary: x)
  case 0
  have "invQ g s vis q" using I by (simp add: bfsInv_def)
  then have "s \<in> vis" by (rule invQ_start)
  then show ?case using 0 by (simp add: reach_0)
next
  case (Suc n)
  from Suc.prems obtain u where u: "reach g s n u" "adjacent u x" "isOpen g x"
    by (auto simp: reach_Suc)
  from I have Q: "invQ g s vis q" and C: "invClosed g (length q) vis q"
    by (simp_all add: bfsInv_def)
  have "u \<in> cellOf ` set q" using Suc.IH [OF u(1)] Q by (simp add: invQ_def)
  then obtain i where i: "i < length q" "cellOf (q ! i) = u" by (auto simp: in_set_conv_nth)
  have "edge g (cellOf (q ! i)) x" using u i by (simp add: edge_def)
  from invClosedD [OF C i(1) this] show ?case .
qed

lemma found_post:
  assumes hw: "h = length g" "w = length (g ! 0)"
    and sg: "0 \<le> fst s" "fst s < int h" "0 \<le> snd s" "snd s < int w"
    and I: "bfsInv g s k vis par q" and k: "k < length q" and qk: "q ! k = (fst gl, snd gl, d)"
  shows "bfsPost g s gl
           (case pathBack h w par (fst gl) (snd gl) [] of
              None \<Rightarrow> None
            | Some (Inl e) \<Rightarrow> Some (Inl e)
            | Some (Inr pth) \<Rightarrow> Some (Inr (Some (d, rev pth))))"
proof -
  let ?T = "trail par gl d"
  from I have Q: "invQ g s vis q" and Ch: "invChain g s par vis q" and M: "invMin g s q"
    by (simp_all add: bfsInv_def)
  have qin: "(fst gl, snd gl, d) \<in> set q" using k qk by (metis nth_mem)
  have par_s: "par s = (- 1, - 1)" using Ch by (simp add: invChain_def)
  have "chain g s par vis (fst gl, snd gl, d)" using Ch qin by (simp add: invChain_def)
  then have sub: "set ?T \<subseteq> vis" and la: "last ?T = s" and ro: "routeFrom g s (tl (rev ?T))"
    by (simp_all add: chain_def)
  have op: "\<And>v. v \<in> vis \<Longrightarrow> v = s \<or> isOpen g v" using Q by (simp add: invQ_def)
  have "\<forall>v \<in> set ?T. 0 \<le> fst v \<and> fst v < int h \<and> 0 \<le> snd v \<and> snd v < int w"
  proof
    fix v assume "v \<in> set ?T"
    then have "v \<in> vis" using sub by blast
    then have "v = s \<or> isOpen g v" by (rule op)
    then show "0 \<le> fst v \<and> fst v < int h \<and> 0 \<le> snd v \<and> snd v < int w"
      using sg hw by (auto simp: isOpen_def)
  qed
  moreover have "par (last ?T) = (- 1, - 1)" using la par_s by simp
  ultimately have pb: "pathBack h w par (fst gl) (snd gl) [] = Some (Inr ([] @ ?T))"
    by (rule pathBack_chain)
  obtain ws where revT: "rev ?T = s # ws"
    using la by (cases "rev ?T") (auto simp: last_rev [symmetric] simp del: last_rev)
  have "length (rev ?T) = Suc d" by simp
  then have len: "length ws = d" unfolding revT by simp
  have "tl (rev ?T) = ws" unfolding revT by simp
  then have ro': "routeFrom g s ws" using ro by simp
  have "last (rev ?T) = hd ?T" by (simp add: last_rev)
  then have "last (s # ws) = gl" unfolding revT by simp
  then have rt: "route g s gl ws" using ro' by (simp add: route_def)
  have mn: "\<And>vs. route g s gl vs \<Longrightarrow> d \<le> length vs"
  proof -
    fix vs assume "route g s gl vs"
    then have "reach g s (length vs) (cellOf (fst gl, snd gl, d))" by (auto simp: reach_def)
    from invMinD [OF M qin this] show "d \<le> length vs" by simp
  qed
  have "rev ([] @ ?T) = s # ws" using revT by simp
  then have res: "(case pathBack h w par (fst gl) (snd gl) [] of
              None \<Rightarrow> None
            | Some (Inl e) \<Rightarrow> Some (Inl e)
            | Some (Inr pth) \<Rightarrow> Some (Inr (Some (d, rev pth))))
          = Some (Inr (Some (length ws, s # ws)))"
    unfolding pb using len by simp
  show ?thesis unfolding res bfsPost_def using rt mn len by blast
qed

lemma none_post:
  assumes I: "bfsInv g s (length q) vis par q" and ng: "\<forall>i < length q. cellOf (q ! i) \<noteq> gl"
  shows "bfsPost g s gl (Some (Inr None))"
proof -
  have "\<not> (\<exists>vs. route g s gl vs)"
  proof
    assume "\<exists>vs. route g s gl vs"
    then obtain vs where "route g s gl vs" by blast
    then have "reach g s (length vs) gl" by (auto simp: reach_def)
    then have "gl \<in> vis" using I by (rule exhausted [rotated])
    moreover have "vis = cellOf ` set q" using I by (simp add: bfsInv_def invQ_def)
    ultimately obtain i where "i < length q" "cellOf (q ! i) = gl" by (auto simp: in_set_conv_nth)
    then show False using ng by blast
  qed
  then show ?thesis by (simp add: bfsPost_def)
qed

lemma bfsLoop_correct:
  assumes hw: "h = length g" "w = length (g ! 0)"
    and sg: "0 \<le> fst s" "fst s < int h" "0 \<le> snd s" "snd s < int w"
  shows "bfsInv g s k vis par q \<Longrightarrow> \<forall>i < k. cellOf (q ! i) \<noteq> gl \<Longrightarrow>
         bfsPost g s gl (bfsLoop g h w gl k vis par q)"
  using hw sg
proof (induction g h w gl k vis par q rule: bfsLoop.induct)
  case (1 g h w gl k vis par q)
  note I = "1.prems"(1) and ng = "1.prems"(2)
  note hw = "1.prems"(3,4) and sg = "1.prems"(5,6,7,8)
  show ?case
  proof (cases "k < length q")
    case False
    then have kl: "k = length q" using I by (simp add: bfsInv_def)
    have "bfsLoop g h w gl k vis par q = Some (Inr None)"
      using False by (subst bfsLoop.simps) simp
    then show ?thesis using none_post [of g s q vis par gl] I ng kl by simp
  next
    case True
    obtain r c d where qk: "q ! k = (r, c, d)" by (cases "q ! k") auto
    show ?thesis
    proof (cases "r = fst gl \<and> c = snd gl")
      case True
      then have qk': "q ! k = (fst gl, snd gl, d)" using qk by simp
      have "bfsLoop g h w gl k vis par q =
              (case pathBack h w par (fst gl) (snd gl) [] of
                 None \<Rightarrow> None
               | Some (Inl e) \<Rightarrow> Some (Inl e)
               | Some (Inr pth) \<Rightarrow> Some (Inr (Some (d, rev pth))))"
        using \<open>k < length q\<close> qk' by (subst bfsLoop.simps) simp
      then show ?thesis using found_post [OF hw sg I \<open>k < length q\<close> qk'] by simp
    next
      case False
      obtain vis' par' q' where f:
        "fold (expandDir g h w r c d) ACTION_DELTAS (vis, par, q) = (vis', par', q')"
        by (cases "fold (expandDir g h w r c d) ACTION_DELTAS (vis, par, q)") auto
      from expand_inv [OF hw I True qk subset_refl f]
      have I1: "bfsInv g s k vis' par' q'" and ext: "\<exists>new. q' = q @ new"
        and cl: "\<forall>dl \<in> set ACTION_DELTAS. isOpen g (r + fst dl, c + snd dl) \<longrightarrow>
                   (r + fst dl, c + snd dl) \<in> vis'"
        by auto
      from ext obtain new where q': "q' = q @ new" by blast
      have k': "k < length q'" using True q' by simp
      have qk1: "q' ! k = (r, c, d)" using True q' qk by (simp add: nth_append)
      have "\<And>x. edge g (cellOf (q' ! k)) x \<Longrightarrow> x \<in> vis'"
      proof -
        fix x assume "edge g (cellOf (q' ! k)) x"
        then have a: "adjacent (r, c) x" and o: "isOpen g x" by (simp_all add: qk1 edge_def)
        from adjacent_cases [OF a] obtain dl where
          "dl \<in> set ACTION_DELTAS" "x = (r + fst dl, c + snd dl)" by blast
        then show "x \<in> vis'" using cl o by blast
      qed
      with I1 k' have I2: "bfsInv g s (Suc k) vis' par' q'" by (rule advance_inv)
      have ng2: "\<forall>i < Suc k. cellOf (q' ! i) \<noteq> gl"
      proof (intro allI impI)
        fix i assume i: "i < Suc k"
        then have e: "q' ! i = q ! i" using True q' by (simp add: nth_append)
        show "cellOf (q' ! i) \<noteq> gl"
        proof (cases "i = k")
          case True
          then show ?thesis using e qk False by (auto simp: cellOf_def)
        next
          case False
          then show ?thesis using e i ng by simp
        qed
      qed
      have IH: "bfsPost g s gl (bfsLoop g h w gl (Suc k) vis' par' q')"
        using "1.IH" [OF True qk [symmetric] refl refl False f [symmetric] refl refl I2 ng2 hw sg] .
      have "bfsLoop g h w gl k vis par q = bfsLoop g h w gl (Suc k) vis' par' q'"
        by (subst bfsLoop.simps) (simp only: True qk False f if_True if_False Let_def prod.case)
      then show ?thesis using IH by simp
    qed
  qed
qed

lemma bfs_correct:
  assumes sg: "0 \<le> fst s" "fst s < int (length g)" "0 \<le> snd s" "snd s < int (length (g ! 0))"
  shows "bfsPost g s gl (bfsShortestPath g s gl)"
proof -
  obtain row0 rest where g: "g = row0 # rest" using sg(1,2) by (cases g) auto
  let ?q = "[(fst s, snd s, 0::nat)]" and ?par = "\<lambda>_::pos. (- 1 :: int, - 1 :: int)"
  have w: "length row0 = length (g ! 0)" by (simp add: g)
  have run: "bfsShortestPath g s gl = bfsLoop g (length g) (length (g ! 0)) gl 0 {s} ?par ?q"
    using sg by (simp add: bfsShortestPath_def g Let_def)
  have Q: "invQ g s {s} ?q" by (simp add: invQ_def)
  have S: "invSorted 0 ?q" by (simp add: invSorted_def)
  have "chain g s ?par {s} (fst s, snd s, 0)" by (simp add: chain_def)
  then have Ch: "invChain g s ?par {s} ?q" by (simp add: invChain_def)
  have M: "invMin g s ?q" by (simp add: invMin_def)
  have C: "invClosed g 0 {s} ?q" by (simp add: invClosed_def)
  have I: "bfsInv g s 0 {s} ?par ?q" unfolding bfsInv_def using Q S Ch M C by simp
  have "bfsPost g s gl (bfsLoop g (length g) (length (g ! 0)) gl 0 {s} ?par ?q)"
    using refl refl sg I by (rule bfsLoop_correct) simp
  then show ?thesis by (simp only: run)
qed

lemma adjacent_neq: "adjacent u v \<Longrightarrow> u \<noteq> v"
  by (cases u, cases v) (auto simp: adjacent_def ACTION_DELTAS_def)

lemma pathRoute_open: "isOpen g s \<Longrightarrow> pathRoute g s gl vs = route g s gl vs"
  by (simp add: pathRoute_def)

text \<open>
  Claim C6, as amended: for every maze, every in-bounds start (a path cell or not) and
  every goal, \<^verbatim>\<open>bfsShortestPath\<close> returns as distance the minimum number of steps of a
  route from the start whose every further cell is an in-bounds path cell, 4-adjacent to
  the cell before, together with such a route of that length; it returns the no-path
  result when no such route exists. For a start that is a path cell these are the routes
  of the graph of path cells. The order of the four directions plays no part in the
  statement. On the fixture, from \<open>(1, 1)\<close> to \<open>(3, 3)\<close>, the distance is 4.
\<close>

theorem bfsShortestPath_minimal:
  assumes "0 \<le> fst s" "fst s < int (length g)" "0 \<le> snd s" "snd s < int (length (g ! 0))"
  shows "((\<exists>vs. route g s gl vs) \<longrightarrow>
           (\<exists>ws. bfsShortestPath g s gl = Some (Inr (Some (length ws, s # ws))) \<and>
                 route g s gl ws \<and> (\<forall>vs. route g s gl vs \<longrightarrow> length ws \<le> length vs)))
       \<and> ((\<nexists>vs. route g s gl vs) \<longrightarrow> bfsShortestPath g s gl = Some (Inr None))
       \<and> (\<exists>pth. bfsShortestPath fixtureMaze (1, 1) (3, 3) = Some (Inr (Some (4, pth))))"
proof -
  have "bfsPost g s gl (bfsShortestPath g s gl)" using assms by (rule bfs_correct)
  then show ?thesis using fixture_bfs unfolding bfsPost_def by blast
qed

lemma fixture_route: "route fixtureMaze (1, 1) (3, 3) [(1, 2), (1, 3), (2, 3), (3, 3)]"
  by (simp add: route_def adjacent_def isOpen_def cellAt_def fixtureMaze_def ACTION_DELTAS_def)

lemma fixture_corner: "bfsShortestPath fixtureMaze (1, 1) (0, 0) = Some (Inr None)"
  by code_simp

theorem bfsShortestPath_minimal_witness:
  "(\<exists>ws. bfsShortestPath fixtureMaze (1, 1) (3, 3) = Some (Inr (Some (length ws, (1, 1) # ws))) \<and>
         route fixtureMaze (1, 1) (3, 3) ws \<and> length ws \<le> 4)
   \<and> \<not> (\<exists>vs. route fixtureMaze (1, 1) (0, 0) vs)"
proof -
  have b: "0 \<le> fst ((1, 1) :: pos)" "fst ((1, 1) :: pos) < int (length fixtureMaze)"
    "0 \<le> snd ((1, 1) :: pos)" "snd ((1, 1) :: pos) < int (length (fixtureMaze ! 0))"
    by (simp_all add: fixtureMaze_def)
  note th = bfsShortestPath_minimal [OF b]
  have "\<exists>ws. bfsShortestPath fixtureMaze (1, 1) (3, 3) = Some (Inr (Some (length ws, (1, 1) # ws))) \<and>
         route fixtureMaze (1, 1) (3, 3) ws \<and> length ws \<le> 4"
    using th [of "(3, 3)"] fixture_route by fastforce
  moreover have "\<not> (\<exists>vs. route fixtureMaze (1, 1) (0, 0) vs)"
    using th [of "(0, 0)"] fixture_corner by auto
  ultimately show ?thesis by blast
qed

lemma fixture_wall_start:
  "bfsShortestPath fixtureMaze (2, 2) (3, 3) = Some (Inr (Some (2, [(2, 2), (3, 2), (3, 3)])))"
  by code_simp

text \<open>
  Claim C6 as stated fails where the start is not an in-bounds path cell. On the fixture
  no route over path cells leaves the centre wall \<open>(2, 2)\<close>, since it is not a vertex of
  that graph, yet the search from it to \<open>(3, 3)\<close> returns distance 2 and not the no-path
  result. From \<open>(5, 1)\<close>, below the last row, no route of any kind exists, and the search
  throws instead of returning the no-path result.
\<close>

lemma fixture_outside_start: "bfsShortestPath fixtureMaze (5, 1) (3, 3) = Some (Inl TypeError)"
  by (simp add: bfsShortestPath_def fixtureMaze_def)

lemma fixture_outside_route: "\<not> (\<exists>vs. route fixtureMaze (5, 1) (3, 3) vs)"
proof
  assume "\<exists>vs. route fixtureMaze (5, 1) (3, 3) vs"
  then obtain vs where r: "routeFrom fixtureMaze (5, 1) vs" "last ((5, 1) # vs) = (3, 3)"
    by (auto simp: route_def)
  show False
  proof (cases vs)
    case Nil
    then show ?thesis using r(2) by simp
  next
    case (Cons v ws)
    then have "adjacent (5, 1) v" "isOpen fixtureMaze v" using r(1) by simp_all
    then show ?thesis
      by (auto simp: adjacent_def ACTION_DELTAS_def isOpen_def cellAt_def fixtureMaze_def)
  qed
qed

theorem bfsShortestPath_wall_start_counterexample:
  "\<not> (\<exists>vs. pathRoute fixtureMaze (2, 2) (3, 3) vs)
   \<and> bfsShortestPath fixtureMaze (2, 2) (3, 3) = Some (Inr (Some (2, [(2, 2), (3, 2), (3, 3)])))
   \<and> \<not> (\<exists>vs. route fixtureMaze (5, 1) (3, 3) vs)
   \<and> bfsShortestPath fixtureMaze (5, 1) (3, 3) = Some (Inl TypeError)"
proof -
  have "\<not> isOpen fixtureMaze (2, 2)" by (simp add: isOpen_def cellAt_def fixtureMaze_def)
  then show ?thesis
    using fixture_wall_start fixture_outside_route fixture_outside_start
    by (simp add: pathRoute_def)
qed

text \<open>
  Claim C9: the start cell's type is never checked. For every in-bounds position \<open>s\<close>,
  wall or not, the search from \<open>s\<close> to \<open>s\<close> returns distance 0 with path \<open>[s]\<close>, and the
  search from \<open>s\<close> to any adjacent in-bounds path cell \<open>v\<close> returns distance 1 with path
  \<open>[s, v]\<close>: the search expands from \<open>s\<close> into its path neighbours.
\<close>

theorem bfsShortestPath_start_unchecked:
  assumes "0 \<le> fst s" "fst s < int (length g)" "0 \<le> snd s" "snd s < int (length (g ! 0))"
  shows "bfsShortestPath g s s = Some (Inr (Some (0, [s])))
       \<and> (\<forall>v. adjacent s v \<and> isOpen g v \<longrightarrow>
             bfsShortestPath g s v = Some (Inr (Some (1, [s, v]))))"
proof (intro conjI allI impI)
  have "bfsPost g s s (bfsShortestPath g s s)" using assms by (rule bfs_correct)
  moreover have r0: "route g s s []" by (simp add: route_def)
  ultimately obtain ws where ws: "bfsShortestPath g s s = Some (Inr (Some (length ws, s # ws)))"
    "\<forall>vs. route g s s vs \<longrightarrow> length ws \<le> length vs" unfolding bfsPost_def by blast
  then have "length ws \<le> length ([] :: pos list)" using r0 by blast
  then have "ws = []" by simp
  then show "bfsShortestPath g s s = Some (Inr (Some (0, [s])))" using ws(1) by simp
next
  fix v assume v: "adjacent s v \<and> isOpen g v"
  have "bfsPost g s v (bfsShortestPath g s v)" using assms by (rule bfs_correct)
  moreover have r1: "route g s v [v]" using v by (simp add: route_def)
  ultimately obtain ws where ws: "bfsShortestPath g s v = Some (Inr (Some (length ws, s # ws)))"
    "route g s v ws" "\<forall>vs. route g s v vs \<longrightarrow> length ws \<le> length vs"
    unfolding bfsPost_def by blast
  have "length ws \<le> length [v]" using ws(3) r1 by blast
  moreover have "ws \<noteq> []"
  proof
    assume "ws = []"
    then have "s = v" using ws(2) by (simp add: route_def)
    then show False using v adjacent_neq by blast
  qed
  ultimately obtain x where x: "ws = [x]" by (cases ws) auto
  then have "x = v" using ws(2) by (simp add: route_def)
  then show "bfsShortestPath g s v = Some (Inr (Some (1, [s, v])))" using ws(1) x by simp
qed

lemma fixture_wall_self: "bfsShortestPath fixtureMaze (2, 2) (2, 2) = Some (Inr (Some (0, [(2, 2)])))"
  by code_simp

theorem bfsShortestPath_start_unchecked_witness:
  "cellAt fixtureMaze 2 2 = Some 1
   \<and> bfsShortestPath fixtureMaze (2, 2) (2, 2) = Some (Inr (Some (0, [(2, 2)])))
   \<and> bfsShortestPath fixtureMaze (2, 2) (3, 2) = Some (Inr (Some (1, [(2, 2), (3, 2)])))"
proof -
  have b: "0 \<le> fst ((2, 2) :: pos)" "fst ((2, 2) :: pos) < int (length fixtureMaze)"
    "0 \<le> snd ((2, 2) :: pos)" "snd ((2, 2) :: pos) < int (length (fixtureMaze ! 0))"
    by (simp_all add: fixtureMaze_def)
  have a: "adjacent (2, 2) (3, 2) \<and> isOpen fixtureMaze (3, 2)"
    by (simp add: adjacent_def isOpen_def cellAt_def fixtureMaze_def ACTION_DELTAS_def)
  have c: "cellAt fixtureMaze 2 2 = Some 1" by (simp add: cellAt_def fixtureMaze_def)
  show ?thesis using bfsShortestPath_start_unchecked [OF b] a c by blast
qed

section \<open>Maze generator\<close>

lemma pokeLoop_connected:
  "pokeLoop k rows cols s gl g rg = Some (Inr (True, g', rg')) \<Longrightarrow>
     \<exists>found. bfsShortestPath g' s gl = Some (Inr (Some found))"
proof (induction k arbitrary: g rg)
  case 0
  then show ?case by simp
next
  case (Suc k)
  obtain x1 rg1 where m1: "mathRandom rg = (x1, rg1)" by (cases "mathRandom rg") auto
  obtain x2 rg2 where m2: "mathRandom rg1 = (x2, rg2)" by (cases "mathRandom rg1") auto
  let ?r = "1 + \<lfloor>x1 * real_of_int (int rows - 2)\<rfloor>" and ?c = "1 + \<lfloor>x2 * real_of_int (int cols - 2)\<rfloor>"
  show ?case
  proof (cases "setCell g ?r ?c 0")
    case (Inl e)
    then show ?thesis using Suc.prems m1 m2 by simp
  next
    case (Inr g1)
    note sc = Inr
    show ?thesis
    proof (cases "bfsShortestPath g1 s gl")
      case None
      then show ?thesis using Suc.prems m1 m2 sc by simp
    next
      case (Some res)
      note bs = Some
      show ?thesis
      proof (cases res)
        case (Inl e)
        then show ?thesis using Suc.prems m1 m2 sc bs by simp
      next
        case (Inr fo)
        show ?thesis
        proof (cases fo)
          case None
          then have "pokeLoop k rows cols s gl g1 rg2 = Some (Inr (True, g', rg'))"
            using Suc.prems m1 m2 sc bs Inr by simp
          then show ?thesis by (rule Suc.IH)
        next
          case (Some found)
          then have "g' = g1" using Suc.prems m1 m2 sc bs Inr by simp
          then show ?thesis using bs Inr Some by simp
        qed
      qed
    qed
  qed
qed

lemma generateMazeFrom_connected:
  assumes run: "generateMazeFrom rows cols s gl rg = Some res"
  shows "\<forall>g rg'. res = Inr (g, rg') \<longrightarrow> (\<exists>found. bfsShortestPath g s gl = Some (Inr (Some found)))"
proof (rule generateMazeFrom.raw_induct
    [where P = "\<lambda>rows cols s gl rg res. \<forall>g rg'. res = Inr (g, rg') \<longrightarrow>
                  (\<exists>found. bfsShortestPath g s gl = Some (Inr (Some found)))", OF _ run],
    goal_cases)
  case (1 again rows cols s gl rg res)
  obtain g0 rg1 where gen: "genRows rows cols [0..<rows] rg = (g0, rg1)"
    by (cases "genRows rows cols [0..<rows] rg") auto
  show ?case
  proof (intro allI impI)
    fix g rg' assume res: "res = Inr (g, rg')"
    show "\<exists>found. bfsShortestPath g s gl = Some (Inr (Some found))"
    proof (cases "setCell g0 (fst s) (snd s) 0")
      case (Inl e)
      then show ?thesis using 1(2) gen res by simp
    next
      case (Inr g1)
      note s1 = Inr
      show ?thesis
      proof (cases "setCell g1 (fst gl) (snd gl) 0")
        case (Inl e)
        then show ?thesis using 1(2) gen res s1 by simp
      next
        case (Inr g2)
        note s2 = Inr
        show ?thesis
        proof (cases "bfsShortestPath g2 s gl")
          case None
          then show ?thesis using 1(2) gen res s1 s2 by simp
        next
          case (Some b)
          note bs = Some
          show ?thesis
          proof (cases b)
            case (Inl e)
            then show ?thesis using 1(2) gen res s1 s2 bs by simp
          next
            case (Inr fo)
            note bi = Inr
            show ?thesis
            proof (cases fo)
              case (Some found)
              then have "g = g2" using 1(2) gen res s1 s2 bs bi by simp
              then show ?thesis using bs bi Some by simp
            next
              case None
              note fn = None
              show ?thesis
              proof (cases "pokeLoop 200 rows cols s gl g2 rg1")
                case None
                then show ?thesis using 1(2) gen res s1 s2 bs bi fn by simp
              next
                case (Some pk)
                note ps = Some
                show ?thesis
                proof (cases pk)
                  case (Inl e)
                  then show ?thesis using 1(2) gen res s1 s2 bs bi fn ps by simp
                next
                  case (Inr tr)
                  obtain conn g3 rg2 where tr: "tr = (conn, g3, rg2)" by (cases tr) auto
                  show ?thesis
                  proof (cases conn)
                    case True
                    then have "g = g3" using 1(2) gen res s1 s2 bs bi fn ps Inr tr by simp
                    moreover have "pokeLoop 200 rows cols s gl g2 rg1 = Some (Inr (True, g3, rg2))"
                      using ps Inr tr True by simp
                    ultimately show ?thesis using pokeLoop_connected by blast
                  next
                    case False
                    then have "again rows cols s gl rg2 = Some res"
                      using 1(2) gen s1 s2 bs bi fn ps Inr tr by simp
                    from 1(1) [OF this] res show ?thesis by blast
                  qed
                qed
              qed
            qed
          qed
        qed
      qed
    qed
  qed
qed

text \<open>
  Claim C5: every grid that \<^verbatim>\<open>generateMaze\<close> returns is connected: the search from the
  start to the goal it was generated for (the defaults resolved) returns a found route.
\<close>

theorem generateMaze_connected:
  assumes "generateMaze rows cols st gl rg = Some (Inr (g, rg'))"
  shows "\<exists>found. bfsShortestPath g
                    (case st of Some s \<Rightarrow> s | None \<Rightarrow> (1, 1))
                    (case gl of Some x \<Rightarrow> x | None \<Rightarrow> (int rows - 2, int cols - 2))
                  = Some (Inr (Some found))"
  using generateMazeFrom_connected [OF assms [unfolded generateMaze_def]] by blast

lemma openMaze_generated:
  "\<exists>rg'. generateMaze 4 4 None None (constSource (1 / 2), 0) = Some (Inr (openMaze, rg'))"
proof -
  have "case generateMaze 4 4 None None (constSource (1 / 2), 0) of
          Some (Inr (g, rg')) \<Rightarrow> g = openMaze
        | _ \<Rightarrow> False"
    by code_simp
  then show ?thesis by (auto split: option.splits sum.splits)
qed

theorem generateMaze_connected_witness:
  "\<exists>found. bfsShortestPath openMaze (1, 1) (int 4 - 2, int 4 - 2) = Some (Inr (Some found))"
proof -
  obtain rg' where "generateMaze 4 4 None None (constSource (1 / 2), 0) = Some (Inr (openMaze, rg'))"
    using openMaze_generated by blast
  from generateMaze_connected [OF this] show ?thesis by simp
qed

end
